theory Spec2Isabelle
  imports Main "HOL-Library.Word" "HOL-Library.Signed_Division"
begin

unbundle bit_operations_syntax

section \<open>Go preliminaries\<close>

text \<open>
  Go's \<open>int\<close> is modelled as the unbounded \<open>int\<close>: every integer the driver computes
  is a coordinate or a byte count of a frame of at most 480 x 128 pixels, far from any
  wrap-around. Go's \<open>/\<close> and \<open>%\<close> truncate towards zero: they are \<open>sdiv\<close> and
  \<open>smod\<close>. A \<open>byte\<close> is an \<open>8 word\<close>, a \<open>uint32\<close> a \<open>32 word\<close>. A run-time
  panic (index or slice out of range, nil dereference, explicit \<open>panic\<close>) is the value
  \<open>None\<close>; a Go \<open>error\<close> result is an \<open>error option\<close>, \<open>None\<close> being \<open>nil\<close>.
\<close>

type_synonym byte = "8 word"
type_synonym uint32 = "32 word"

text \<open>\<open>s[i]\<close>: panics outside \<open>0 \<le> i < len(s)\<close>.\<close>

definition index :: "'a list \<Rightarrow> int \<Rightarrow> 'a option" where
  "index s i = (if 0 \<le> i \<and> i < int (length s) then Some (s ! nat i) else None)"

text \<open>\<open>s[i] = v\<close>: panics outside \<open>0 \<le> i < len(s)\<close>.\<close>

definition store :: "'a list \<Rightarrow> int \<Rightarrow> 'a \<Rightarrow> 'a list option" where
  "store s i v = (if 0 \<le> i \<and> i < int (length s) then Some (s[nat i := v]) else None)"

text \<open>
  \<open>s[lo:hi]\<close>: panics unless \<open>0 \<le> lo \<le> hi \<le> cap(s)\<close>. Every slice of the driver
  comes from \<open>make\<close> with its length as capacity, so the capacity is the length.
\<close>

definition slice :: "'a list \<Rightarrow> int \<Rightarrow> int \<Rightarrow> 'a list option" where
  "slice s lo hi =
     (if 0 \<le> lo \<and> lo \<le> hi \<and> hi \<le> int (length s)
      then Some (take (nat (hi - lo)) (drop (nat lo) s)) else None)"

text \<open>\<open>s[lo:]\<close>: panics unless \<open>0 \<le> lo \<le> len(s)\<close>.\<close>

definition slice_from :: "'a list \<Rightarrow> int \<Rightarrow> 'a list option" where
  "slice_from s lo = (if 0 \<le> lo \<and> lo \<le> int (length s) then Some (drop (nat lo) s) else None)"

text \<open>\<open>make([]byte, n)\<close>: zero-filled; panics when \<open>n\<close> is negative.\<close>

definition make_bytes :: "int \<Rightarrow> byte list option" where
  "make_bytes n = (if n < 0 then None else Some (replicate (nat n) 0))"

text \<open>
  \<open>copy(dst, src)\<close> overwrites the first \<open>min(len(dst), len(src))\<close> elements of
  \<open>dst\<close>; the value is the new content of \<open>dst\<close>.
\<close>

definition copy :: "'a list \<Rightarrow> 'a list \<Rightarrow> 'a list" where
  "copy dst src = take (length dst) src @ drop (length src) dst"

text \<open>A loop whose body may panic: the first panic ends it.\<close>

fun for_each :: "('a \<Rightarrow> 's \<Rightarrow> 's option) \<Rightarrow> 'a list \<Rightarrow> 's \<Rightarrow> 's option" where
  "for_each body [] s = Some s"
| "for_each body (i # is) s =
     (case body i s of None \<Rightarrow> None | Some s' \<Rightarrow> for_each body is s')"

section \<open>Go's image package: points and rectangles\<close>

record point =
  X :: int
  Y :: int

record rectangle =
  Min_pt :: point
  Max_pt :: point

definition Pt :: "int \<Rightarrow> int \<Rightarrow> point" where
  "Pt x y = \<lparr>X = x, Y = y\<rparr>"

definition ZR :: rectangle where
  "ZR = \<lparr>Min_pt = Pt 0 0, Max_pt = Pt 0 0\<rparr>"

text \<open>\<open>image.Rect\<close> orders its corners.\<close>

definition Rect_of :: "int \<Rightarrow> int \<Rightarrow> int \<Rightarrow> int \<Rightarrow> rectangle" where
  "Rect_of x0 y0 x1 y1 =
     \<lparr>Min_pt = Pt (if x0 > x1 then x1 else x0) (if y0 > y1 then y1 else y0),
      Max_pt = Pt (if x0 > x1 then x0 else x1) (if y0 > y1 then y0 else y1)\<rparr>"

definition Dx :: "rectangle \<Rightarrow> int" where
  "Dx r = X (Max_pt r) - X (Min_pt r)"

definition Dy :: "rectangle \<Rightarrow> int" where
  "Dy r = Y (Max_pt r) - Y (Min_pt r)"

definition Empty :: "rectangle \<Rightarrow> bool" where
  "Empty r \<longleftrightarrow> X (Min_pt r) \<ge> X (Max_pt r) \<or> Y (Min_pt r) \<ge> Y (Max_pt r)"

definition In :: "point \<Rightarrow> rectangle \<Rightarrow> bool" where
  "In p r \<longleftrightarrow> X (Min_pt r) \<le> X p \<and> X p < X (Max_pt r) \<and>
             Y (Min_pt r) \<le> Y p \<and> Y p < Y (Max_pt r)"

definition Intersect :: "rectangle \<Rightarrow> rectangle \<Rightarrow> rectangle" where
  "Intersect r s =
     (let r1 = \<lparr>Min_pt = Pt (if X (Min_pt r) < X (Min_pt s) then X (Min_pt s) else X (Min_pt r))
                            (if Y (Min_pt r) < Y (Min_pt s) then Y (Min_pt s) else Y (Min_pt r)),
                Max_pt = Pt (if X (Max_pt r) > X (Max_pt s) then X (Max_pt s) else X (Max_pt r))
                            (if Y (Max_pt r) > Y (Max_pt s) then Y (Max_pt s) else Y (Max_pt r))\<rparr>
      in if Empty r1 then ZR else r1)"

definition Add_pt :: "rectangle \<Rightarrow> point \<Rightarrow> rectangle" where
  "Add_pt r p = \<lparr>Min_pt = Pt (X (Min_pt r) + X p) (Y (Min_pt r) + Y p),
                 Max_pt = Pt (X (Max_pt r) + X p) (Y (Max_pt r) + Y p)\<rparr>"

definition Sub_pt :: "point \<Rightarrow> point \<Rightarrow> point" where
  "Sub_pt p q = Pt (X p - X q) (Y p - Y q)"

section \<open>Package image4bit\<close>

text \<open>\<open>Gray4\<close> is a struct with the single field \<open>Y uint8\<close>.\<close>

datatype Gray4 = Gray4 (gray_Y: byte)

text \<open>
  A \<open>color.Color\<close> is either a \<open>Gray4\<close> or any other colour, given by the four
  \<open>uint32\<close> results of its \<open>RGBA()\<close> method.
\<close>

datatype color = Gray4_color Gray4 | RGBA_color uint32 uint32 uint32 uint32

fun toGray4 :: "color \<Rightarrow> Gray4" where
  "toGray4 (Gray4_color g) = g"
| "toGray4 (RGBA_color r g b a) =
     Gray4 (ucast (drop_bit 12 ((299 * r + 587 * g + 114 * b + 500) div 1000)))"

record HorizontalNibble =
  Pix :: "byte list"
  Stride :: int
  Rect :: rectangle

definition NewHorizontalNibble :: "rectangle \<Rightarrow> HorizontalNibble option" where
  "NewHorizontalNibble r =
     (let w = Dx r; h = Dy r in
      if w < 0 \<or> h < 0 then Some \<lparr>Pix = [], Stride = 0, Rect = r\<rparr>
      else if w smod 2 \<noteq> 0 then None
      else let stride = w sdiv 2; pixelCount = stride * h in
        case make_bytes pixelCount of
          None \<Rightarrow> None
        | Some pix \<Rightarrow> Some \<lparr>Pix = pix, Stride = stride, Rect = r\<rparr>)"

definition pixOffset :: "HorizontalNibble \<Rightarrow> int \<Rightarrow> int \<Rightarrow> int \<times> nat" where
  "pixOffset p x y =
     ((y - Y (Min_pt (Rect p))) * Stride p + (x - X (Min_pt (Rect p))) sdiv 2,
      nat (4 * (1 - (x AND 1))))"

definition Gray4At :: "HorizontalNibble \<Rightarrow> int \<Rightarrow> int \<Rightarrow> Gray4 option" where
  "Gray4At p x y =
     (if \<not> In (Pt x y) (Rect p) then Some (Gray4 0)
      else let (offset, shift) = pixOffset p x y in
        case index (Pix p) offset of
          None \<Rightarrow> None
        | Some b \<Rightarrow> Some (Gray4 (drop_bit shift b AND 0x0F)))"

definition SetGray4 :: "HorizontalNibble \<Rightarrow> int \<Rightarrow> int \<Rightarrow> Gray4 \<Rightarrow> HorizontalNibble option" where
  "SetGray4 p x y c =
     (if \<not> In (Pt x y) (Rect p) then Some p
      else let (offset, shift) = pixOffset p x y in
        case index (Pix p) offset of
          None \<Rightarrow> None
        | Some b \<Rightarrow>
            (case store (Pix p) offset
                    ((b AND NOT (push_bit shift 0x0F)) OR push_bit shift (gray_Y c AND 0x0F)) of
               None \<Rightarrow> None
             | Some pix \<Rightarrow> Some (p\<lparr>Pix := pix\<rparr>)))"

definition Set :: "HorizontalNibble \<Rightarrow> int \<Rightarrow> int \<Rightarrow> color \<Rightarrow> HorizontalNibble option" where
  "Set p x y c =
     (if \<not> In (Pt x y) (Rect p) then Some p
      else let (offset, shift) = pixOffset p x y;
               gray4 = toGray4 c in
        case index (Pix p) offset of
          None \<Rightarrow> None
        | Some b \<Rightarrow>
            (case store (Pix p) offset
                    ((b AND NOT (push_bit shift 0x0F)) OR push_bit shift (gray_Y gray4 AND 0x0F)) of
               None \<Rightarrow> None
             | Some pix \<Rightarrow> Some (p\<lparr>Pix := pix\<rparr>)))"

text \<open>
  The layout every image made by \<open>NewHorizontalNibble\<close> has and every \<open>Set\<close> keeps:
  an even width, \<open>Stride\<close> half of it, and \<open>Stride\<close> bytes for each row.
\<close>

definition packed :: "HorizontalNibble \<Rightarrow> bool" where
  "packed p \<longleftrightarrow> 0 \<le> Dx (Rect p) \<and> 0 \<le> Dy (Rect p) \<and> Dx (Rect p) smod 2 = 0 \<and>
              Stride p = Dx (Rect p) sdiv 2 \<and>
              int (length (Pix p)) = Stride p * Dy (Rect p)"

section \<open>Go's image/draw package, as far as the driver uses it\<close>

text \<open>
  An \<open>image.Image\<close> handed to the driver is a \<open>*image4bit.HorizontalNibble\<close> or an
  image of any other type, given by its \<open>Bounds()\<close> and its \<open>At\<close> method.
\<close>

datatype image = Nibble_image HorizontalNibble | Other_image rectangle "int \<Rightarrow> int \<Rightarrow> color"

fun Bounds :: "image \<Rightarrow> rectangle" where
  "Bounds (Nibble_image p) = Rect p"
| "Bounds (Other_image r f) = r"

fun At :: "image \<Rightarrow> int \<Rightarrow> int \<Rightarrow> color option" where
  "At (Nibble_image p) x y = map_option Gray4_color (Gray4At p x y)"
| "At (Other_image r f) x y = Some (f x y)"

text \<open>
  \<open>draw.Draw(dst, r, src, sp, draw.Src)\<close> with a \<open>HorizontalNibble\<close> destination has
  no specialised path in the standard library: it clips \<open>r\<close> to both images and calls
  \<open>dst.Set(x, y, src.At(sx, sy))\<close> for each pixel, rows first. The source is never
  the destination itself (the destination is private to the driver), so the scan runs
  forwards.
\<close>

definition clip :: "rectangle \<Rightarrow> rectangle \<Rightarrow> rectangle \<Rightarrow> point \<Rightarrow> rectangle \<times> point" where
  "clip dstB r srcB sp =
     (let orig = Min_pt r;
          r1 = Intersect r dstB;
          r2 = Intersect r1 (Add_pt srcB (Sub_pt orig sp));
          dx = X (Min_pt r2) - X orig;
          dy = Y (Min_pt r2) - Y orig
      in if dx = 0 \<and> dy = 0 then (r2, sp) else (r2, Pt (X sp + dx) (Y sp + dy)))"

definition draw_pixel :: "image \<Rightarrow> rectangle \<Rightarrow> point \<Rightarrow> int \<Rightarrow> int \<Rightarrow>
    HorizontalNibble \<Rightarrow> HorizontalNibble option" where
  "draw_pixel src r sp y x dst =
     (case At src (X sp + x - X (Min_pt r)) (Y sp + y - Y (Min_pt r)) of
        None \<Rightarrow> None
      | Some c \<Rightarrow> Set dst x y c)"

definition draw_row :: "image \<Rightarrow> rectangle \<Rightarrow> point \<Rightarrow> int \<Rightarrow>
    HorizontalNibble \<Rightarrow> HorizontalNibble option" where
  "draw_row src r sp y dst =
     for_each (draw_pixel src r sp y) [X (Min_pt r) .. X (Max_pt r) - 1] dst"

definition draw_Draw :: "HorizontalNibble \<Rightarrow> rectangle \<Rightarrow> image \<Rightarrow> point \<Rightarrow>
    HorizontalNibble option" where
  "draw_Draw dst r src sp =
     (case clip (Rect dst) r (Bounds src) sp of
        (r', sp') \<Rightarrow>
          if Empty r' then Some dst
          else for_each (draw_row src r' sp') [Y (Min_pt r') .. Y (Max_pt r') - 1] dst)"

section \<open>Package ssd1322: the transport\<close>

text \<open>
  The SPI port, its connection and the two GPIO pins are outside the driver. They are one
  bus: it records every call made to it and answers each call from a list of scripted
  faults (\<open>None\<close>, or an exhausted list, is success). "No transport call" means the bus is
  left as it was. \<open>time.Sleep\<close> has no effect on any value and is left out.
\<close>

datatype error =
    ErrWidth | ErrHeight | ErrHalted | ErrBufferSize
  | ErrBus nat | ErrRstLow error | ErrRstHigh error

datatype call = Connect | DC_Out bool | RST_Out bool | Tx "byte list"

record bus =
  calls :: "call list"
  faults :: "nat option list"

definition invoke :: "call \<Rightarrow> bus \<Rightarrow> error option \<times> bus" where
  "invoke c b =
     (case faults b of
        [] \<Rightarrow> (None, b\<lparr>calls := calls b @ [c]\<rparr>)
      | f # fs \<Rightarrow> (map_option ErrBus f, \<lparr>calls = calls b @ [c], faults = fs\<rparr>))"

section \<open>Package ssd1322: the device\<close>

record Opts =
  W :: int
  H :: int
  Rotated :: bool
  Sequential :: bool
  SwapTopBottom :: bool
  RST :: bool

text \<open>
  \<open>Dev\<close> without its handles \<open>c\<close> and \<open>dc\<close>, which are the bus; \<open>rst\<close> tells whether
  a reset pin was given; \<open>next_img\<close> is the pointer field \<open>next\<close>, \<open>None\<close> being nil.
\<close>

record Dev =
  rst :: bool
  rect :: rectangle
  columnOffset :: int
  buffer :: "byte list"
  next_img :: "HorizontalNibble option"
  lastDm :: HorizontalNibble
  minCol :: int
  maxCol :: int
  minRow :: int
  maxRow :: int
  halted :: bool

definition sendCommands :: "byte list \<Rightarrow> bus \<Rightarrow> error option \<times> bus" where
  "sendCommands cmds b =
     (case invoke (DC_Out False) b of
        (Some e, b') \<Rightarrow> (Some e, b')
      | (None, b') \<Rightarrow> invoke (Tx cmds) b')"

definition sendCommand :: "byte \<Rightarrow> bus \<Rightarrow> error option \<times> bus" where
  "sendCommand cmd b = sendCommands [cmd] b"

definition sendData :: "byte list \<Rightarrow> bus \<Rightarrow> error option \<times> bus" where
  "sendData data b =
     (case invoke (DC_Out True) b of
        (Some e, b') \<Rightarrow> (Some e, b')
      | (None, b') \<Rightarrow> invoke (Tx data) b')"

definition writeRect :: "Dev \<Rightarrow> int \<Rightarrow> int \<Rightarrow> int \<Rightarrow> int \<Rightarrow> byte list \<Rightarrow> bus \<Rightarrow>
    error option \<times> bus" where
  "writeRect d x y width height pixels b =
     (let colStart = (word_of_int ((x + columnOffset d) sdiv 2) :: byte);
          colEnd = (word_of_int ((x + width - 1 + columnOffset d) sdiv 2) :: byte);
          commands = [0x15, colStart, colEnd,
                      0x75, word_of_int y, word_of_int (y + height - 1),
                      0x5C]
      in case sendCommands commands b of
           (Some e, b') \<Rightarrow> (Some e, b')
         | (None, b') \<Rightarrow> sendData pixels b')"

definition writeFullFrame :: "Dev \<Rightarrow> byte list \<Rightarrow> bus \<Rightarrow> error option \<times> bus" where
  "writeFullFrame d pixels b = writeRect d 0 0 (Dx (rect d)) (Dy (rect d)) pixels b"

definition clearRAM :: "Dev \<Rightarrow> bus \<Rightarrow> (error option \<times> bus) option" where
  "clearRAM d b =
     (let colStart = (word_of_int (columnOffset d sdiv 2) :: byte);
          colEnd = (word_of_int ((columnOffset d + Dx (rect d) - 1) sdiv 2) :: byte);
          commands = [0x15, colStart, colEnd,
                      0x75, 0, word_of_int (Dy (rect d) - 1),
                      0x5C]
      in case sendCommands commands b of
           (Some e, b') \<Rightarrow> Some (Some e, b')
         | (None, b') \<Rightarrow>
             (case make_bytes (Dx (rect d) * Dy (rect d) sdiv 2) of
                None \<Rightarrow> None
              | Some zeros \<Rightarrow> Some (sendData zeros b')))"

definition init_cmds :: "Opts \<Rightarrow> byte list" where
  "init_cmds opts =
     (let remap1 = (if Rotated opts then 0x06 else 0x14);
          remap2 = (0x11 :: byte);
          remap2 = (if Sequential opts then remap2 OR 0x01 else remap2);
          remap2 = (if SwapTopBottom opts then remap2 OR 0x02 else remap2)
      in [0xFD, 0x12, 0xAE, 0xB3, 0xF2, 0xCA, word_of_int (H opts - 1),
          0xA2, 0x00, 0xA1, 0x00] @
         [0xA0, remap1, remap2, 0xAB, 0x01, 0xB4, 0xA0, 0xFD, 0xC1, 0xFF, 0xC7, 0x0F,
          0xB9, 0xB1, 0xE2, 0xD1, 0x82, 0x20, 0xBB, 0x1F, 0xB6, 0x08, 0xBE, 0x07,
          0xA6, 0xA9])"

definition reset_pulse :: "Dev \<Rightarrow> bus \<Rightarrow> error option \<times> bus" where
  "reset_pulse d b =
     (if rst d then
        (case invoke (RST_Out False) b of
           (Some e, b') \<Rightarrow> (Some (ErrRstLow e), b')
         | (None, b') \<Rightarrow>
             (case invoke (RST_Out True) b' of
                (Some e, b'') \<Rightarrow> (Some (ErrRstHigh e), b'')
              | (None, b'') \<Rightarrow> (None, b'')))
      else (None, b))"

definition init :: "Dev \<Rightarrow> Opts \<Rightarrow> bus \<Rightarrow> (error option \<times> bus) option" where
  "init d opts b =
     (case reset_pulse d b of
        (Some e, b1) \<Rightarrow> Some (Some e, b1)
      | (None, b1) \<Rightarrow>
          (case sendCommands (init_cmds opts) b1 of
             (Some e, b2) \<Rightarrow> Some (Some e, b2)
           | (None, b2) \<Rightarrow>
               (case clearRAM d b2 of
                  None \<Rightarrow> None
                | Some (Some e, b3) \<Rightarrow> Some (Some e, b3)
                | Some (None, b3) \<Rightarrow> Some (sendCommand 0xAF b3))))"

definition default_Opts :: Opts where
  "default_Opts = \<lparr>W = 256, H = 64, Rotated = False, Sequential = False,
                   SwapTopBottom = False, RST = False\<rparr>"

definition NewSPI :: "Opts option \<Rightarrow> bus \<Rightarrow> ((Dev option \<times> error option) \<times> bus) option" where
  "NewSPI opts0 b =
     (let opts = (case opts0 of None \<Rightarrow> default_Opts | Some o1 \<Rightarrow> o1) in
      if W opts \<le> 0 \<or> W opts smod 2 \<noteq> 0 \<or> W opts > 480 then Some ((None, Some ErrWidth), b)
      else if H opts \<le> 0 \<or> H opts > 128 then Some ((None, Some ErrHeight), b)
      else case invoke Connect b of
             (Some e, b1) \<Rightarrow> Some ((None, Some e), b1)
           | (None, b1) \<Rightarrow>
               (case make_bytes (W opts * H opts sdiv 2) of
                  None \<Rightarrow> None
                | Some buf \<Rightarrow>
                    let d = \<lparr>rst = RST opts,
                             rect = Rect_of 0 0 (W opts) (H opts),
                             columnOffset = (480 - W opts) sdiv 2,
                             buffer = buf,
                             next_img = None,
                             lastDm = \<lparr>Pix = [], Stride = 0, Rect = ZR\<rparr>,
                             minCol = 0,
                             maxCol = W opts - 1,
                             minRow = 0,
                             maxRow = H opts - 1,
                             halted = False\<rparr>
                    in case init d opts b1 of
                         None \<Rightarrow> None
                       | Some (Some e, b2) \<Rightarrow> Some ((None, Some e), b2)
                       | Some (None, b2) \<Rightarrow> Some ((Some d, None), b2)))"

definition Write :: "Dev \<Rightarrow> byte list \<Rightarrow> bus \<Rightarrow> (int \<times> error option) \<times> Dev \<times> bus" where
  "Write d pixels b =
     (if halted d then ((0, Some ErrHalted), d, b)
      else if length pixels \<noteq> length (buffer d) then ((0, Some ErrBufferSize), d, b)
      else case writeFullFrame d pixels b of
             (Some e, b') \<Rightarrow> ((0, Some e), d, b')
           | (None, b') \<Rightarrow>
               ((int (length pixels), None), d\<lparr>buffer := copy (buffer d) pixels\<rparr>, b'))"

text \<open>The inner loop of \<open>calculateDiff\<close>: one byte of a row that differs.\<close>

definition diff_col :: "byte list \<Rightarrow> byte list \<Rightarrow> int \<Rightarrow> int \<Rightarrow> int \<times> int \<Rightarrow>
    (int \<times> int) option" where
  "diff_col prev nxt rowStart x acc =
     (case acc of (mnC, mxC) \<Rightarrow>
        (case index prev (rowStart + x) of
           None \<Rightarrow> None
         | Some a \<Rightarrow>
             (case index nxt (rowStart + x) of
                None \<Rightarrow> None
              | Some c \<Rightarrow>
                  if a \<noteq> c then
                    let colStart = x * 2;
                        colEnd = colStart + 1
                    in Some (if colStart < mnC then colStart else mnC,
                             if colEnd > mxC then colEnd else mxC)
                  else Some (mnC, mxC))))"

text \<open>The outer loop of \<open>calculateDiff\<close>: one row.\<close>

definition diff_row :: "byte list \<Rightarrow> byte list \<Rightarrow> int \<Rightarrow> int \<Rightarrow> int \<times> int \<times> int \<times> int \<Rightarrow>
    (int \<times> int \<times> int \<times> int) option" where
  "diff_row prev nxt stride y acc =
     (case acc of (mnC, mxC, mnR, mxR) \<Rightarrow>
        (let rowStart = y * stride;
             rowEnd = rowStart + stride
         in case slice prev rowStart rowEnd of
              None \<Rightarrow> None
            | Some ra \<Rightarrow>
                (case slice nxt rowStart rowEnd of
                   None \<Rightarrow> None
                 | Some rb \<Rightarrow>
                     if ra \<noteq> rb then
                       let mnR' = (if y < mnR then y else mnR);
                           mxR' = (if y > mxR then y else mxR)
                       in case for_each (diff_col prev nxt rowStart) [0 .. stride - 1] (mnC, mxC) of
                            None \<Rightarrow> None
                          | Some (mnC', mxC') \<Rightarrow> Some (mnC', mxC', mnR', mxR')
                     else Some (mnC, mxC, mnR, mxR))))"

text \<open>The result is \<open>(minCol, maxCol, minRow, maxRow)\<close>, in the order Go returns them.\<close>

definition calculateDiff :: "Dev \<Rightarrow> (int \<times> int \<times> int \<times> int) option" where
  "calculateDiff d =
     (case next_img d of
        None \<Rightarrow> None
      | Some nx \<Rightarrow>
          (let width = Dx (rect d);
               height = Dy (rect d);
               stride = width sdiv 2
           in case for_each (diff_row (Pix (lastDm d)) (Pix nx) stride) [0 .. height - 1]
                     (width, -1, height, -1) of
                None \<Rightarrow> None
              | Some (mnC, mxC, mnR, mxR) \<Rightarrow>
                  (let mnC' = (if mnC smod 2 \<noteq> 0 then mnC - 1 else mnC);
                       mxC' = (if mxC smod 2 = 0 \<and> mxC < width - 1 then mxC + 1 else mxC)
                   in Some (mnC', mxC', mnR, mxR))))"

text \<open>
  One row of \<open>extractRegion\<close>: \<open>copy(result[dstIdx:], d.next.Pix[srcStart:srcStart+byteWidth])\<close>
  and the advance of \<open>dstIdx\<close>.
\<close>

definition extract_row :: "Dev \<Rightarrow> int \<Rightarrow> int \<Rightarrow> int \<Rightarrow> int \<Rightarrow> byte list \<times> int \<Rightarrow>
    (byte list \<times> int) option" where
  "extract_row d stride byteWidth mnC y acc =
     (case acc of (result, dstIdx) \<Rightarrow>
        (let srcStart = y * stride + mnC sdiv 2
         in case slice_from result dstIdx of
              None \<Rightarrow> None
            | Some dst \<Rightarrow>
                (case next_img d of
                   None \<Rightarrow> None
                 | Some nx \<Rightarrow>
                     (case slice (Pix nx) srcStart (srcStart + byteWidth) of
                        None \<Rightarrow> None
                      | Some src \<Rightarrow>
                          Some (take (nat dstIdx) result @ copy dst src, dstIdx + byteWidth)))))"

definition extractRegion :: "Dev \<Rightarrow> int \<Rightarrow> int \<Rightarrow> int \<Rightarrow> int \<Rightarrow> byte list option" where
  "extractRegion d mnC mxC mnR mxR =
     (let width = mxC - mnC + 1;
          height = mxR - mnR + 1;
          stride = Dx (rect d) sdiv 2;
          byteWidth = width sdiv 2
      in case make_bytes (byteWidth * height) of
           None \<Rightarrow> None
         | Some result \<Rightarrow>
             map_option fst
               (for_each (extract_row d stride byteWidth mnC) [mnR .. mxR] (result, 0)))"

text \<open>The test of the fast path of \<open>Draw\<close>; \<open>dst\<close> is already clipped.\<close>

fun full_frame_source :: "Dev \<Rightarrow> rectangle \<Rightarrow> image \<Rightarrow> point \<Rightarrow> byte list option" where
  "full_frame_source d dst (Nibble_image srcImg) sp =
     (if dst = rect d \<and> sp = Pt 0 0 \<and> Rect srcImg = rect d then Some (Pix srcImg) else None)"
| "full_frame_source d dst (Other_image r f) sp = None"

text \<open>The lazy allocation of the double buffer at the first slow \<open>Draw\<close>.\<close>

definition ensure_next :: "Dev \<Rightarrow> Dev option" where
  "ensure_next d =
     (case next_img d of
        Some nx \<Rightarrow> Some d
      | None \<Rightarrow>
          (case NewHorizontalNibble (rect d) of
             None \<Rightarrow> None
           | Some nx \<Rightarrow>
               (case make_bytes (int (length (buffer d))) of
                  None \<Rightarrow> None
                | Some pix \<Rightarrow>
                    Some (d\<lparr>next_img := Some nx,
                            lastDm := \<lparr>Pix = copy pix (buffer d), Stride = Stride nx,
                                       Rect = rect d\<rparr>\<rparr>))))"

text \<open>
  The first half of the slow path of \<open>Draw\<close>: allocate the double buffer if it is nil
  and draw the source into it with \<open>draw.Draw\<close>.
\<close>

definition render :: "Dev \<Rightarrow> rectangle \<Rightarrow> image \<Rightarrow> point \<Rightarrow> Dev option" where
  "render d dst src sp =
     (case ensure_next d of
        None \<Rightarrow> None
      | Some d1 \<Rightarrow>
          (case next_img d1 of
             None \<Rightarrow> None
           | Some nx \<Rightarrow>
               (case draw_Draw nx dst src sp of
                  None \<Rightarrow> None
                | Some nx' \<Rightarrow> Some (d1\<lparr>next_img := Some nx'\<rparr>))))"

text \<open>
  The second half: find the changed rectangle, send it, and on success copy the double
  buffer into \<open>buffer\<close> and \<open>lastDm.Pix\<close>.
\<close>

definition send_changes :: "Dev \<Rightarrow> bus \<Rightarrow> (error option \<times> Dev \<times> bus) option" where
  "send_changes d2 b =
     (case calculateDiff d2 of
        None \<Rightarrow> None
      | Some (mnC, mxC, mnR, mxR) \<Rightarrow>
          if mnC > mxC then Some (None, d2, b)
          else
            (case extractRegion d2 mnC mxC mnR mxR of
               None \<Rightarrow> None
             | Some changedData \<Rightarrow>
                 (case writeRect d2 mnC mnR (mxC - mnC + 1) (mxR - mnR + 1) changedData b of
                    (Some e, b') \<Rightarrow> Some (Some e, d2, b')
                  | (None, b') \<Rightarrow>
                      (case next_img d2 of
                         None \<Rightarrow> None
                       | Some nx \<Rightarrow>
                           Some (None,
                                 d2\<lparr>buffer := copy (buffer d2) (Pix nx),
                                    lastDm := (lastDm d2)
                                      \<lparr>Pix := copy (Pix (lastDm d2)) (Pix nx)\<rparr>\<rparr>,
                                 b')))))"

definition Draw :: "Dev \<Rightarrow> rectangle \<Rightarrow> image \<Rightarrow> point \<Rightarrow> bus \<Rightarrow>
    (error option \<times> Dev \<times> bus) option" where
  "Draw d dst0 src sp b =
     (if halted d then Some (Some ErrHalted, d, b)
      else let dst = Intersect dst0 (rect d) in
        if Empty dst then Some (None, d, b)
        else case full_frame_source d dst src sp of
          Some pix \<Rightarrow> (case writeFullFrame d pix b of (e, b') \<Rightarrow> Some (e, d, b'))
        | None \<Rightarrow>
           (case render d dst src sp of
              None \<Rightarrow> None
            | Some d2 \<Rightarrow> send_changes d2 b))"

definition Halt :: "Dev \<Rightarrow> bus \<Rightarrow> error option \<times> Dev \<times> bus" where
  "Halt d b = (case sendCommand 0xAE b of (e, b') \<Rightarrow> (e, d\<lparr>halted := True\<rparr>, b'))"

section \<open>Well-formed devices\<close>

text \<open>
  What \<open>NewSPI\<close> establishes and \<open>Write\<close>, \<open>Draw\<close> and \<open>Halt\<close> keep: the frame
  lies at the origin with a size \<open>NewSPI\<close> accepts, the centring offset
  and the committed buffer fit it, and once the double buffer exists it and the last
  displayed frame are packed images of the frame.
\<close>

definition frame_ok :: "Dev \<Rightarrow> bool" where
  "frame_ok d \<longleftrightarrow>
     (let w = Dx (rect d); h = Dy (rect d) in
      0 < w \<and> w \<le> 480 \<and> w smod 2 = 0 \<and> 0 < h \<and> h \<le> 128 \<and>
      rect d = Rect_of 0 0 w h \<and>
      columnOffset d = (480 - w) sdiv 2 \<and>
      int (length (buffer d)) = w * h sdiv 2)"

definition buffers_ok :: "Dev \<Rightarrow> bool" where
  "buffers_ok d \<longleftrightarrow>
     (case next_img d of
        None \<Rightarrow> True
      | Some nx \<Rightarrow> packed nx \<and> Rect nx = rect d \<and>
                   Rect (lastDm d) = rect d \<and> Stride (lastDm d) = Stride nx \<and>
                   length (Pix (lastDm d)) = length (Pix nx))"

definition dev_ok :: "Dev \<Rightarrow> bool" where
  "dev_ok d \<longleftrightarrow> frame_ok d \<and> buffers_ok d"

section \<open>What the claims speak of\<close>

text \<open>
  The bytes in which the last displayed frame and the double buffer differ, as pairs of a
  row and a byte-column, rows first: the set \<open>calculateDiff\<close> is to enclose.
\<close>

definition differing :: "Dev \<Rightarrow> (int \<times> int) list" where
  "differing d =
     (case next_img d of
        None \<Rightarrow> []
      | Some nx \<Rightarrow>
          (let stride = Dx (rect d) sdiv 2
           in [(y, i). y \<leftarrow> [0 .. Dy (rect d) - 1], i \<leftarrow> [0 .. stride - 1],
                 index (Pix (lastDm d)) (y * stride + i) \<noteq> index (Pix nx) (y * stride + i)]))"

text \<open>
  A rectangle \<open>(minCol, maxCol, minRow, maxRow)\<close> is the least byte-aligned rectangle
  around the differing bytes: it starts at an even and ends at an odd pixel column, every
  differing byte lies in its rows and byte-columns, and its first row, its last row, its
  first byte-column and its last byte-column each hold a differing byte.
\<close>

definition encloses_changes :: "Dev \<Rightarrow> int \<times> int \<times> int \<times> int \<Rightarrow> bool" where
  "encloses_changes d r =
     (case r of (mnC, mxC, mnR, mxR) \<Rightarrow>
        even mnC \<and> odd mxC \<and>
        (\<forall>(y, i) \<in> set (differing d). mnR \<le> y \<and> y \<le> mxR \<and> mnC div 2 \<le> i \<and> i \<le> mxC div 2) \<and>
        (\<exists>(y, i) \<in> set (differing d). y = mnR) \<and>
        (\<exists>(y, i) \<in> set (differing d). y = mxR) \<and>
        (\<exists>(y, i) \<in> set (differing d). i = mnC div 2) \<and>
        (\<exists>(y, i) \<in> set (differing d). i = mxC div 2))"

text \<open>\<open>Draw\<close> takes \<open>minCol > maxCol\<close> for "no change".\<close>

definition no_change :: "int \<times> int \<times> int \<times> int \<Rightarrow> bool" where
  "no_change r = (case r of (mnC, mxC, mnR, mxR) \<Rightarrow> mnC > mxC)"

text \<open>A pixel rectangle, bounds inclusive, that lies in the frame of the device.\<close>

definition inside_frame :: "Dev \<Rightarrow> int \<Rightarrow> int \<Rightarrow> int \<Rightarrow> int \<Rightarrow> bool" where
  "inside_frame d mnC mxC mnR mxR \<longleftrightarrow>
     0 \<le> mnC \<and> mnC \<le> mxC \<and> mxC < Dx (rect d) \<and> 0 \<le> mnR \<and> mnR \<le> mxR \<and> mxR < Dy (rect d)"

text \<open>The bytes of row \<open>y\<close> from byte-column \<open>lo\<close> to byte-column \<open>hi\<close>, both included.\<close>

definition row_bytes :: "byte list \<Rightarrow> int \<Rightarrow> int \<Rightarrow> int \<Rightarrow> int \<Rightarrow> byte list" where
  "row_bytes pix stride y lo hi = map (\<lambda>i. pix ! nat (y * stride + i)) [lo .. hi]"

text \<open>
  The transport of a device is scripted by \<open>faults\<close>. One send, \<open>writeRect\<close>, makes
  at most four calls and stops at the first that fails: the send fails exactly when one of
  the next four answers is a fault, and \<open>first_fault 4\<close> is that fault.
\<close>

definition first_fault :: "nat \<Rightarrow> bus \<Rightarrow> nat option" where
  "first_fault k b =
     (case filter (\<lambda>f. f \<noteq> None) (take k (faults b)) of [] \<Rightarrow> None | f # fs \<Rightarrow> f)"

text \<open>
  The baseline of the differential scan is the committed frame: once the double buffer
  exists, \<open>lastDm.Pix\<close> holds the bytes of \<open>buffer\<close>. \<open>NewSPI\<close> establishes this
  and \<open>Draw\<close> keeps it; \<open>Write\<close> keeps it as long as the double buffer is nil.
\<close>

definition in_sync :: "Dev \<Rightarrow> bool" where
  "in_sync d \<longleftrightarrow> (case next_img d of None \<Rightarrow> True | Some nx \<Rightarrow> Pix (lastDm d) = buffer d)"

text \<open>
  The pixel \<open>(x, y)\<close> of \<open>q\<close>, given as the pair \<open>(y, x)\<close>, holds what
  \<open>draw.Draw\<close> writes there from the source, if it lies in \<open>q\<close>.
\<close>

definition painted :: "image \<Rightarrow> rectangle \<Rightarrow> point \<Rightarrow> HorizontalNibble \<Rightarrow> int \<times> int \<Rightarrow> bool" where
  "painted src r sp q yx =
     (case yx of (y, x) \<Rightarrow>
        (case At src (X sp + x - X (Min_pt r)) (Y sp + y - Y (Min_pt r)) of
           None \<Rightarrow> False
         | Some c \<Rightarrow> In (Pt x y) (Rect q) \<longrightarrow>
                     Gray4At q x y = Some (Gray4 (gray_Y (toGray4 c) AND 0x0F))))"

text \<open>
  A source whose \<open>At\<close> cannot panic: an image of another type, or a packed
  \<open>HorizontalNibble\<close>.
\<close>

definition well_formed :: "image \<Rightarrow> bool" where
  "well_formed src = (case src of Nibble_image s \<Rightarrow> packed s | Other_image r f \<Rightarrow> True)"

text \<open>
  \<open>q\<close> is \<open>p\<close> with the source drawn into the rectangle \<open>r\<close>: an image of the
  same shape in which every pixel of the clipped rectangle holds the source pixel that
  \<open>draw.Draw\<close> aligns with it, masked to four bits, and every other pixel is the
  pixel of \<open>p\<close>.
\<close>

definition rendered_from :: "image \<Rightarrow> rectangle \<Rightarrow> point \<Rightarrow> HorizontalNibble \<Rightarrow>
    HorizontalNibble \<Rightarrow> bool" where
  "rendered_from src r sp p q \<longleftrightarrow>
     Rect q = Rect p \<and> Stride q = Stride p \<and> length (Pix q) = length (Pix p) \<and>
     (case clip (Rect p) r (Bounds src) sp of
        (r', sp') \<Rightarrow>
          \<forall>y \<in> set [Y (Min_pt (Rect p)) .. Y (Max_pt (Rect p)) - 1].
            \<forall>x \<in> set [X (Min_pt (Rect p)) .. X (Max_pt (Rect p)) - 1].
              if In (Pt x y) r' then painted src r' sp' q (y, x)
              else Gray4At q x y = Gray4At p x y)"

section \<open>Notions the proofs use\<close>

text \<open>
  The byte-columns below \<open>k\<close> at which the row starting at \<open>rs\<close> differs, the differing
  bytes of the rows below \<open>k\<close>, and the state of the scan of \<open>calculateDiff\<close> as a
  function of the bytes seen to differ so far.
\<close>

definition diff_cols :: "byte list \<Rightarrow> byte list \<Rightarrow> int \<Rightarrow> int \<Rightarrow> int set" where
  "diff_cols a c rs k = {i. 0 \<le> i \<and> i < k \<and> a ! nat (rs + i) \<noteq> c ! nat (rs + i)}"

definition diff_bytes :: "byte list \<Rightarrow> byte list \<Rightarrow> int \<Rightarrow> int \<Rightarrow> (int \<times> int) set" where
  "diff_bytes a c S k = {(y, i). 0 \<le> y \<and> y < k \<and> i \<in> diff_cols a c (y * S) S}"

definition diff_state :: "int \<times> int \<times> int \<times> int \<Rightarrow> (int \<times> int) set \<Rightarrow> int \<times> int \<times> int \<times> int" where
  "diff_state ini P =
     (case ini of (w, mx0, h, my0) \<Rightarrow>
       (Min (insert w ((\<lambda>p. 2 * snd p) ` P)), Max (insert mx0 ((\<lambda>p. 2 * snd p + 1) ` P)),
        Min (insert h (fst ` P)), Max (insert my0 (fst ` P))))"

text \<open>Two images of the same rectangle, stride and buffer length.\<close>

definition same_shape :: "HorizontalNibble \<Rightarrow> HorizontalNibble \<Rightarrow> bool" where
  "same_shape p q \<longleftrightarrow> Rect q = Rect p \<and> Stride q = Stride p \<and> length (Pix q) = length (Pix p)"

section \<open>Arithmetic and bit-level facts\<close>

lemma sdiv2_nonneg: "(0::int) \<le> a \<Longrightarrow> a sdiv 2 = a div 2"
  by (simp add: signed_divide_int_def sgn_if)

lemma smod2_eq_0_iff: "(a::int) smod 2 = 0 \<longleftrightarrow> even a"
  by (auto simp: signed_modulo_int_def sgn_if abs_if)

lemma fifteen_mask: "(15::byte) = mask 4"
  by (simp add: mask_eq_exp_minus_1)

lemma shift_of_x: "nat (4 * (1 - ((x::int) AND 1))) = (if even x then 4 else 0)"
  by (auto simp: and_one_eq mod_2_eq_odd)

lemma nibble_written:
  "s \<le> 4 \<Longrightarrow>
   drop_bit s ((b AND NOT (push_bit s 0x0F)) OR push_bit s (v AND 0x0F)) AND 0x0F = v AND (0x0F::byte)"
  unfolding fifteen_mask by (rule bit_eqI) (auto simp: bit_simps)

lemma high_nibble_small: "drop_bit 4 b AND 0x0F = drop_bit 4 (b::byte)"
  unfolding fifteen_mask by (rule bit_eqI) (auto simp: bit_simps dest: bit_imp_le_length)

section \<open>The packed pixel format\<close>

lemma In_Rect_of:
  "0 \<le> w \<Longrightarrow> 0 \<le> h \<Longrightarrow>
   In (Pt x y) (Rect_of 0 0 w h) \<longleftrightarrow> 0 \<le> x \<and> x < w \<and> 0 \<le> y \<and> y < h"
  by (auto simp: In_def Pt_def Rect_of_def)

text \<open>Inside a packed image \<open>pixOffset\<close> is a valid index of \<open>Pix\<close>: no access panics.\<close>

lemma pixOffset_in_range:
  assumes "packed p" "In (Pt x y) (Rect p)"
  shows "0 \<le> fst (pixOffset p x y)" "fst (pixOffset p x y) < int (length (Pix p))"
proof -
  define x0 where "x0 = X (Min_pt (Rect p))"
  define y0 where "y0 = Y (Min_pt (Rect p))"
  define S where "S = Stride p"
  have dx: "0 \<le> x - x0" "x - x0 < Dx (Rect p)" and dy: "0 \<le> y - y0" "y - y0 < Dy (Rect p)"
    using assms(2) by (auto simp: In_def Pt_def Dx_def Dy_def x0_def y0_def)
  have ev: "even (Dx (Rect p))" and S: "S = Dx (Rect p) div 2"
    and len: "int (length (Pix p)) = S * Dy (Rect p)"
    using assms(1) dx by (auto simp: packed_def smod2_eq_0_iff sdiv2_nonneg S_def)
  have q: "(x - x0) sdiv 2 = (x - x0) div 2" using dx(1) by (rule sdiv2_nonneg)
  have q0: "0 \<le> (x - x0) div 2" using dx by simp
  have q1: "(x - x0) div 2 < S" using dx ev S by (auto elim!: evenE)
  have S0: "0 \<le> S" using q0 q1 by simp
  have off: "fst (pixOffset p x y) = (y - y0) * S + (x - x0) div 2"
    using q by (simp add: pixOffset_def x0_def y0_def S_def)
  show "0 \<le> fst (pixOffset p x y)" using dy q0 S0 by (simp add: off)
  have "(y - y0) * S + (x - x0) div 2 < (y - y0) * S + S" using q1 by simp
  also have "\<dots> = (y - y0 + 1) * S" by (simp add: algebra_simps)
  also have "\<dots> \<le> Dy (Rect p) * S" using dy S0 by (intro mult_right_mono) auto
  finally show "fst (pixOffset p x y) < int (length (Pix p))" by (simp add: off len mult.commute)
qed

text \<open>
  Claim C4. In a packed image at the origin, of width \<open>w\<close> and height \<open>h\<close>, the stride
  is \<open>w / 2\<close> and the pixel \<open>(x, y)\<close> lies in the byte at offset \<open>y * stride + x / 2\<close>,
  which exists, at shift 4 (high nibble) when \<open>x\<close> is even and at shift 0 (low nibble) when
  \<open>x\<close> is odd; so that byte \<open>b\<close>, at byte-column \<open>i = x / 2\<close> of row \<open>y\<close>, holds pixel
  \<open>2i\<close> as \<open>b >> 4\<close> and pixel \<open>2i + 1\<close> as \<open>b & 0xF\<close>.
\<close>

theorem pixel_layout:
  assumes "packed p" and "Rect p = Rect_of 0 0 w h"
    and "0 \<le> x" "x < w" "0 \<le> y" "y < h"
  shows "Stride p = w div 2 \<and>
         pixOffset p x y = (y * Stride p + x div 2, if even x then 4 else 0) \<and>
         nat (y * Stride p + x div 2) < length (Pix p) \<and>
         Gray4At p x y =
           Some (Gray4 (drop_bit (if even x then 4 else 0)
                          (Pix p ! nat (y * Stride p + x div 2)) AND 0x0F)) \<and>
         Gray4At p (2 * (x div 2)) y =
           Some (Gray4 (drop_bit 4 (Pix p ! nat (y * Stride p + x div 2)))) \<and>
         Gray4At p (2 * (x div 2) + 1) y =
           Some (Gray4 (Pix p ! nat (y * Stride p + x div 2) AND 0x0F))"
proof -
  have wh: "0 \<le> w" "0 \<le> h" using assms by auto
  have R: "Min_pt (Rect p) = Pt 0 0" "Max_pt (Rect p) = Pt w h" "Dx (Rect p) = w" "Dy (Rect p) = h"
    using wh by (auto simp: assms(2) Rect_of_def Dx_def Dy_def Pt_def)
  have ev: "even w" and S: "Stride p = w div 2"
    using assms(1) wh by (auto simp: packed_def R smod2_eq_0_iff sdiv2_nonneg)
  have po: "\<And>x'. 0 \<le> x' \<Longrightarrow>
      pixOffset p x' y = (y * Stride p + x' div 2, if even x' then 4 else 0)"
    unfolding pixOffset_def shift_of_x by (simp add: R Pt_def sdiv2_nonneg)
  have inb: "\<And>x'. 0 \<le> x' \<Longrightarrow> x' < w \<Longrightarrow> In (Pt x' y) (Rect p)"
    using assms wh by (simp add: In_Rect_of)
  have rng: "0 \<le> y * Stride p + x div 2" "y * Stride p + x div 2 < int (length (Pix p))"
    using pixOffset_in_range[OF assms(1) inb[OF assms(3,4)]] by (simp_all add: po assms(3))
  have g: "\<And>x'. 0 \<le> x' \<Longrightarrow> x' < w \<Longrightarrow> x' div 2 = x div 2 \<Longrightarrow>
      Gray4At p x' y =
        Some (Gray4 (drop_bit (if even x' then 4 else 0)
                       (Pix p ! nat (y * Stride p + x div 2)) AND 0x0F))"
    using rng by (simp add: Gray4At_def inb po index_def)
  have x1: "0 \<le> 2 * (x div 2)" "2 * (x div 2) < w"
    "0 \<le> 2 * (x div 2) + 1" "2 * (x div 2) + 1 < w"
    using assms(3,4) ev by presburger+
  show ?thesis
    using g[OF assms(3,4)] g[OF x1(1,2)] g[OF x1(3,4)] rng
    by (simp add: S[symmetric] po assms(3) high_nibble_small)
qed

theorem pixel_layout_witness:
  "packed \<lparr>Pix = [0x5A, 0x3C], Stride = 2, Rect = Rect_of 0 0 4 1\<rparr> \<and>
   pixOffset \<lparr>Pix = [0x5A, 0x3C], Stride = 2, Rect = Rect_of 0 0 4 1\<rparr> 3 0 = (1, 0) \<and>
   Gray4At \<lparr>Pix = [0x5A, 0x3C], Stride = 2, Rect = Rect_of 0 0 4 1\<rparr> 3 0 = Some (Gray4 0x0C) \<and>
   Gray4At \<lparr>Pix = [0x5A, 0x3C], Stride = 2, Rect = Rect_of 0 0 4 1\<rparr> 2 0 = Some (Gray4 0x03)"
proof -
  have pk: "packed \<lparr>Pix = [0x5A, 0x3C], Stride = 2, Rect = Rect_of 0 0 4 1\<rparr>"
    by (simp add: packed_def Rect_of_def Dx_def Dy_def Pt_def signed_divide_int_def
        signed_modulo_int_def)
  show ?thesis
    using pk pixel_layout[OF pk, of 4 1 3 0] by simp
qed



text \<open>
  Claim C8. For every image, packed or not, and every coordinate outside its bounds (for an
  image at the origin: outside \<open>[0, width) x [0, height)\<close>, by \<open>In_Rect_of\<close>),
  \<open>Gray4At\<close> returns 0 without panicking, and \<open>SetGray4\<close> and \<open>Set\<close>, with any value,
  return without panicking and leave the image, so its whole backing buffer, as it was.
\<close>

theorem out_of_bounds_access:
  assumes "\<not> In (Pt x y) (Rect p)"
  shows "Gray4At p x y = Some (Gray4 0) \<and> SetGray4 p x y c = Some p \<and> Set p x y col = Some p"
  using assms by (simp add: Gray4At_def SetGray4_def Set_def)

theorem out_of_bounds_access_witness:
  "\<not> In (Pt (-1) 0) (Rect \<lparr>Pix = [0x5A, 0x3C], Stride = 2, Rect = Rect_of 0 0 4 1\<rparr>) \<and>
   Gray4At \<lparr>Pix = [0x5A, 0x3C], Stride = 2, Rect = Rect_of 0 0 4 1\<rparr> (-1) 0 = Some (Gray4 0) \<and>
   SetGray4 \<lparr>Pix = [0x5A, 0x3C], Stride = 2, Rect = Rect_of 0 0 4 1\<rparr> (-1) 0 (Gray4 7)
     = Some \<lparr>Pix = [0x5A, 0x3C], Stride = 2, Rect = Rect_of 0 0 4 1\<rparr> \<and>
   Set \<lparr>Pix = [0x5A, 0x3C], Stride = 2, Rect = Rect_of 0 0 4 1\<rparr> (-1) 0 (Gray4_color (Gray4 7))
     = Some \<lparr>Pix = [0x5A, 0x3C], Stride = 2, Rect = Rect_of 0 0 4 1\<rparr>"
proof -
  have out: "\<not> In (Pt (-1) 0) (Rect \<lparr>Pix = [0x5A, 0x3C], Stride = 2, Rect = Rect_of 0 0 4 1\<rparr>)"
    by (simp add: In_Rect_of)
  show ?thesis
    using out out_of_bounds_access[OF out, of "Gray4 7" "Gray4_color (Gray4 7)"] by simp
qed

section \<open>The differential scan\<close>

lemma for_each_append:
  "for_each f (xs @ ys) s = (case for_each f xs s of None \<Rightarrow> None | Some s' \<Rightarrow> for_each f ys s')"
  by (induction xs arbitrary: s) (auto split: option.splits)

lemma upto_Suc_snoc: "[0 .. int (Suc n) - 1] = [0 .. int n - 1] @ [int n]"
  using upto_rec2[of 0 "int n"] by simp

lemma Min_insert_Min:
  assumes "finite A" "finite B"
  shows "Min (insert (Min (insert w A)) B) = Min (insert (w::int) (A \<union> B))"
proof (cases "B = {}")
  case True
  then show ?thesis by simp
next
  case False
  have "Min (insert (Min (insert w A)) B) = min (Min (insert w A)) (Min B)"
    using assms(2) False by (rule Min_insert)
  also have "\<dots> = Min (insert w A \<union> B)"
    using assms False by (intro Min_Un[symmetric]) auto
  also have "insert w A \<union> B = insert w (A \<union> B)" by (rule Un_insert_left)
  finally show ?thesis .
qed

lemma Max_insert_Max:
  assumes "finite A" "finite B"
  shows "Max (insert (Max (insert w A)) B) = Max (insert (w::int) (A \<union> B))"
proof (cases "B = {}")
  case True
  then show ?thesis by simp
next
  case False
  have "Max (insert (Max (insert w A)) B) = max (Max (insert w A)) (Max B)"
    using assms(2) False by (rule Max_insert)
  also have "\<dots> = Max (insert w A \<union> B)"
    using assms False by (intro Max_Un[symmetric]) auto
  also have "insert w A \<union> B = insert w (A \<union> B)" by (rule Un_insert_left)
  finally show ?thesis .
qed

lemma finite_diff_cols [simp]: "finite (diff_cols a c rs k)"
proof -
  have "diff_cols a c rs k \<subseteq> {0..<k}" by (auto simp: diff_cols_def)
  then show ?thesis by (rule finite_subset) simp
qed

lemma diff_cols_Suc:
  "diff_cols a c rs (int (Suc n)) =
     diff_cols a c rs (int n) \<union> (if a ! nat (rs + int n) \<noteq> c ! nat (rs + int n) then {int n} else {})"
proof -
  have "0 \<le> x \<and> x < int (Suc n) \<and> P x \<longleftrightarrow>
        (0 \<le> x \<and> x < int n \<and> P x) \<or> (x = int n \<and> P (int n))" for x P
    by (cases "x = int n") auto
  then have "{i. 0 \<le> i \<and> i < int (Suc n) \<and> P i} =
             {i. 0 \<le> i \<and> i < int n \<and> P i} \<union> (if P (int n) then {int n} else {})" for P
    by (intro set_eqI) (simp only: mem_Collect_eq Un_iff, auto)
  then show ?thesis unfolding diff_cols_def .
qed

lemma diff_cols_0 [simp]: "diff_cols a c rs 0 = {}"
  by (simp add: diff_cols_def)

lemma diff_col_step:
  assumes "index a (rs + x) = Some va" "index c (rs + x) = Some vc"
  shows "diff_col a c rs x (m, M) =
           Some (if va \<noteq> vc then (min (2 * x) m, max (2 * x + 1) M) else (m, M))"
  using assms by (auto simp: diff_col_def Let_def min_def max_def)

lemma Min_insert_swap:
  assumes "finite A"
  shows "Min (insert m (insert v A)) = min v (Min (insert (m::int) A))"
proof -
  have "insert m (insert v A) = insert v (insert m A)" by auto
  then have "Min (insert m (insert v A)) = Min (insert v (insert m A))" by (rule arg_cong)
  also have "\<dots> = min v (Min (insert m A))"
    using assms by (intro Min_insert) auto
  finally show ?thesis .
qed

lemma Max_insert_swap:
  assumes "finite A"
  shows "Max (insert m (insert v A)) = max v (Max (insert (m::int) A))"
proof -
  have "insert m (insert v A) = insert v (insert m A)" by auto
  then have "Max (insert m (insert v A)) = Max (insert v (insert m A))" by (rule arg_cong)
  also have "\<dots> = max v (Max (insert m A))"
    using assms by (intro Max_insert) auto
  finally show ?thesis .
qed

lemma scan_cols:
  assumes "0 \<le> rs" "rs + int n \<le> int (length a)" "rs + int n \<le> int (length c)"
  shows "for_each (diff_col a c rs) [0 .. int n - 1] (mn, mx) =
           Some (Min (insert mn ((\<lambda>i. 2 * i) ` diff_cols a c rs (int n))),
                 Max (insert mx ((\<lambda>i. 2 * i + 1) ` diff_cols a c rs (int n))))"
  using assms
proof (induction n)
  case 0
  then show ?case by simp
next
  case (Suc n)
  let ?D = "diff_cols a c rs (int n)"
  have ih: "for_each (diff_col a c rs) [0 .. int n - 1] (mn, mx) =
           Some (Min (insert mn ((\<lambda>i. 2 * i) ` ?D)), Max (insert mx ((\<lambda>i. 2 * i + 1) ` ?D)))"
    using Suc by simp
  have ia: "index a (rs + int n) = Some (a ! nat (rs + int n))"
    and ic: "index c (rs + int n) = Some (c ! nat (rs + int n))"
    using Suc.prems by (auto simp: index_def)
  show ?case
  proof (cases "a ! nat (rs + int n) \<noteq> c ! nat (rs + int n)")
    case True
    then have D: "diff_cols a c rs (int (Suc n)) = insert (int n) ?D"
      unfolding diff_cols_Suc by simp
    show ?thesis
      unfolding upto_Suc_snoc for_each_append ih D
      by (simp add: diff_col_step[OF ia ic] True Min_insert_swap Max_insert_swap
               del: Min_insert Max_insert)
  next
    case False
    then have D: "diff_cols a c rs (int (Suc n)) = ?D"
      unfolding diff_cols_Suc by simp
    show ?thesis
      unfolding upto_Suc_snoc for_each_append ih D
      using False by (simp add: diff_col_step[OF ia ic])
  qed
qed

lemma row_slice:
  assumes "0 \<le> rs" "rs + int n \<le> int (length a)"
  shows "slice a rs (rs + int n) = Some (take n (drop (nat rs) a))"
  using assms by (simp add: slice_def)

lemma rows_differ_iff:
  assumes "0 \<le> rs" "rs + int n \<le> int (length a)" "rs + int n \<le> int (length c)"
  shows "take n (drop (nat rs) a) \<noteq> take n (drop (nat rs) c) \<longleftrightarrow> diff_cols a c rs (int n) \<noteq> {}"
proof -
  have la: "length (take n (drop (nat rs) a)) = n" and lc: "length (take n (drop (nat rs) c)) = n"
    using assms by auto
  have na: "take n (drop (nat rs) a) ! i = a ! nat (rs + int i)" if "i < n" for i
    using that assms by (simp add: nat_add_distrib)
  have nc: "take n (drop (nat rs) c) ! i = c ! nat (rs + int i)" if "i < n" for i
    using that assms by (simp add: nat_add_distrib)
  have "take n (drop (nat rs) a) = take n (drop (nat rs) c) \<longleftrightarrow>
        (\<forall>i<n. a ! nat (rs + int i) = c ! nat (rs + int i))"
    unfolding list_eq_iff_nth_eq la lc using na nc by auto
  also have "\<dots> \<longleftrightarrow> diff_cols a c rs (int n) = {}"
  proof
    assume h: "\<forall>i<n. a ! nat (rs + int i) = c ! nat (rs + int i)"
    show "diff_cols a c rs (int n) = {}"
    proof (rule ccontr)
      assume "diff_cols a c rs (int n) \<noteq> {}"
      then obtain j where j: "0 \<le> j" "j < int n" "a ! nat (rs + j) \<noteq> c ! nat (rs + j)"
        by (auto simp: diff_cols_def)
      then have "nat j < n" "int (nat j) = j" by auto
      with h j(3) show False by metis
    qed
  next
    assume e: "diff_cols a c rs (int n) = {}"
    show "\<forall>i<n. a ! nat (rs + int i) = c ! nat (rs + int i)"
    proof (intro allI impI)
      fix i assume "i < n"
      then have "int i \<notin> diff_cols a c rs (int n) \<Longrightarrow> a ! nat (rs + int i) = c ! nat (rs + int i)"
        by (simp add: diff_cols_def)
      with e show "a ! nat (rs + int i) = c ! nat (rs + int i)" by simp
    qed
  qed
  finally show ?thesis by blast
qed

lemma finite_diff_bytes [simp]: "finite (diff_bytes a c S k)"
proof -
  have "diff_bytes a c S k \<subseteq> {0..<k} \<times> {0..<S}" by (auto simp: diff_bytes_def diff_cols_def)
  then show ?thesis by (rule finite_subset) simp
qed

lemma diff_bytes_0 [simp]: "diff_bytes a c S 0 = {}"
  by (auto simp: diff_bytes_def)

lemma diff_bytes_Suc:
  "diff_bytes a c S (int (Suc n)) =
     diff_bytes a c S (int n) \<union> Pair (int n) ` diff_cols a c (int n * S) S"
proof (rule set_eqI)
  fix p :: "int \<times> int"
  obtain y i where p: "p = (y, i)" by (cases p)
  have "y < int (Suc n) \<longleftrightarrow> y < int n \<or> y = int n" by auto
  then show "p \<in> diff_bytes a c S (int (Suc n)) \<longleftrightarrow>
        p \<in> diff_bytes a c S (int n) \<union> Pair (int n) ` diff_cols a c (int n * S) S"
    unfolding p diff_bytes_def by (cases "y = int n") auto
qed

lemma diff_row_step:
  assumes "0 \<le> S" "(int n + 1) * S \<le> int (length a)" "(int n + 1) * S \<le> int (length c)"
  shows "diff_row a c S (int n) (diff_state ini (diff_bytes a c S (int n))) =
           Some (diff_state ini (diff_bytes a c S (int (Suc n))))"
proof -
  obtain w mx0 h my0 where ini: "ini = (w, mx0, h, my0)" by (cases ini)
  obtain s where s: "S = int s" using assms(1) nonneg_int_cases by blast
  let ?rs = "int n * S"
  let ?P = "diff_bytes a c S (int n)"
  let ?D = "diff_cols a c ?rs S"
  have rs0: "0 \<le> ?rs" using assms(1) by simp
  have ra: "?rs + int s \<le> int (length a)" and rc: "?rs + int s \<le> int (length c)"
    using assms(2,3) by (simp_all add: s algebra_simps)
  have sa: "slice a ?rs (?rs + S) = Some (take s (drop (nat ?rs) a))"
    using row_slice[OF rs0 ra] by (simp add: s)
  have sc: "slice c ?rs (?rs + S) = Some (take s (drop (nat ?rs) c))"
    using row_slice[OF rs0 rc] by (simp add: s)
  have ne: "take s (drop (nat ?rs) a) \<noteq> take s (drop (nat ?rs) c) \<longleftrightarrow> ?D \<noteq> {}"
    using rows_differ_iff[OF rs0 ra rc] by (simp add: s)
  have cols: "for_each (diff_col a c ?rs) [0 .. S - 1] (mn, mx) =
           Some (Min (insert mn ((\<lambda>i. 2 * i) ` ?D)), Max (insert mx ((\<lambda>i. 2 * i + 1) ` ?D)))" for mn mx
    using scan_cols[OF rs0 ra rc] by (simp add: s)
  have PS: "diff_bytes a c S (int (Suc n)) = ?P \<union> Pair (int n) ` ?D" by (rule diff_bytes_Suc)
  show ?thesis
  proof (cases "?D = {}")
    case True
    then show ?thesis
      using ne unfolding PS by (simp add: diff_row_def Let_def sa sc ini diff_state_def)
  next
    case False
    have i1: "(\<lambda>p. 2 * snd p) ` (?P \<union> Pair (int n) ` ?D) = (\<lambda>p. 2 * snd p) ` ?P \<union> (\<lambda>i. 2 * i) ` ?D"
      by (auto simp: image_Un image_image)
    have i2: "(\<lambda>p. 2 * snd p + 1) ` (?P \<union> Pair (int n) ` ?D) =
              (\<lambda>p. 2 * snd p + 1) ` ?P \<union> (\<lambda>i. 2 * i + 1) ` ?D"
      by (auto simp: image_Un image_image)
    have i3: "fst ` (?P \<union> Pair (int n) ` ?D) = insert (int n) (fst ` ?P)"
      using False by (auto simp: image_Un image_image)
    have m1: "Min (insert (Min (insert w ((\<lambda>p. 2 * snd p) ` ?P))) ((\<lambda>i. 2 * i) ` ?D)) =
              Min (insert w ((\<lambda>p. 2 * snd p) ` ?P \<union> (\<lambda>i. 2 * i) ` ?D))"
      by (intro Min_insert_Min) auto
    have m2: "Max (insert (Max (insert mx0 ((\<lambda>p. 2 * snd p + 1) ` ?P))) ((\<lambda>i. 2 * i + 1) ` ?D)) =
              Max (insert mx0 ((\<lambda>p. 2 * snd p + 1) ` ?P \<union> (\<lambda>i. 2 * i + 1) ` ?D))"
      by (intro Max_insert_Max) auto
    have m3: "Min (insert h (insert (int n) (fst ` ?P))) = min (int n) (Min (insert h (fst ` ?P)))"
      by (intro Min_insert_swap) auto
    have m4: "Max (insert my0 (insert (int n) (fst ` ?P))) = max (int n) (Max (insert my0 (fst ` ?P)))"
      by (intro Max_insert_swap) auto
    define c0 where "c0 = Min (insert w ((\<lambda>p. 2 * snd p) ` ?P))"
    define c1 where "c1 = Max (insert mx0 ((\<lambda>p. 2 * snd p + 1) ` ?P))"
    define r0 where "r0 = Min (insert h (fst ` ?P))"
    define r1 where "r1 = Max (insert my0 (fst ` ?P))"
    have st: "diff_state ini ?P = (c0, c1, r0, r1)"
      by (simp only: diff_state_def ini prod.case c0_def c1_def r0_def r1_def)
    have "diff_row a c S (int n) (c0, c1, r0, r1) =
        Some (Min (insert c0 ((\<lambda>i. 2 * i) ` ?D)), Max (insert c1 ((\<lambda>i. 2 * i + 1) ` ?D)),
              min (int n) r0, max (int n) r1)"
      using ne False
      by (simp add: diff_row_def Let_def sa sc cols min_def max_def del: Min_insert Max_insert)
    then have lhs: "diff_row a c S (int n) (diff_state ini ?P) =
        Some (Min (insert (Min (insert w ((\<lambda>p. 2 * snd p) ` ?P))) ((\<lambda>i. 2 * i) ` ?D)),
              Max (insert (Max (insert mx0 ((\<lambda>p. 2 * snd p + 1) ` ?P))) ((\<lambda>i. 2 * i + 1) ` ?D)),
              min (int n) (Min (insert h (fst ` ?P))),
              max (int n) (Max (insert my0 (fst ` ?P))))"
      unfolding st unfolding c0_def c1_def r0_def r1_def .
    show ?thesis
      unfolding lhs PS by (simp only: diff_state_def ini prod.case i1 i2 i3 m1 m2 m3 m4)
  qed
qed

lemma scan_rows:
  assumes "0 \<le> S" "int n * S \<le> int (length a)" "int n * S \<le> int (length c)"
  shows "for_each (diff_row a c S) [0 .. int n - 1] st0 =
           Some (diff_state st0 (diff_bytes a c S (int n)))"
  using assms
proof (induction n)
  case 0
  obtain w mx0 h my0 where "st0 = (w, mx0, h, my0)" by (cases st0)
  then show ?case by (simp add: diff_state_def)
next
  case (Suc n)
  have le: "int n * S \<le> int (Suc n) * S" using Suc.prems(1) by (simp add: algebra_simps)
  have ih: "for_each (diff_row a c S) [0 .. int n - 1] st0 =
           Some (diff_state st0 (diff_bytes a c S (int n)))"
    using Suc le by simp
  have st: "diff_row a c S (int n) (diff_state st0 (diff_bytes a c S (int n))) =
           Some (diff_state st0 (diff_bytes a c S (int (Suc n))))"
    using Suc.prems by (intro diff_row_step) (simp_all add: algebra_simps)
  show ?case
    unfolding upto_Suc_snoc for_each_append ih by (simp add: st)
qed

lemma buffers_ok_facts:
  assumes "buffers_ok d" "next_img d = Some nx"
  shows "0 \<le> Dx (rect d)" "0 \<le> Dy (rect d)" "even (Dx (rect d))"
    "Dx (rect d) sdiv 2 = Dx (rect d) div 2"
    "int (length (Pix nx)) = (Dx (rect d) div 2) * Dy (rect d)"
    "length (Pix (lastDm d)) = length (Pix nx)"
  using assms by (auto simp: buffers_ok_def packed_def smod2_eq_0_iff sdiv2_nonneg)

lemma byte_index_in_range:
  assumes "0 \<le> y" "y < h" "0 \<le> i" "i < S" "int (length a) = S * h"
  shows "0 \<le> y * S + i" "y * S + i < int (length a)"
proof -
  show "0 \<le> y * S + i" using assms by simp
  have "y * S + i < y * S + S" using assms by simp
  also have "\<dots> = (y + 1) * S" by (simp add: algebra_simps)
  also have "\<dots> \<le> h * S" using assms by (intro mult_right_mono) auto
  finally show "y * S + i < int (length a)" using assms by (simp add: mult.commute)
qed

lemma differing_set:
  assumes "buffers_ok d" "next_img d = Some nx"
  shows "set (differing d) =
           diff_bytes (Pix (lastDm d)) (Pix nx) (Dx (rect d) div 2) (Dy (rect d))"
proof -
  note f = buffers_ok_facts[OF assms]
  let ?S = "Dx (rect d) div 2"
  let ?h = "Dy (rect d)"
  have la: "int (length (Pix (lastDm d))) = ?S * ?h" using f by simp
  have ix: "(index (Pix (lastDm d)) (y * ?S + i) \<noteq> index (Pix nx) (y * ?S + i)) =
            (Pix (lastDm d) ! nat (y * ?S + i) \<noteq> Pix nx ! nat (y * ?S + i))"
    if "0 \<le> y" "y < ?h" "0 \<le> i" "i < ?S" for y i
    using byte_index_in_range[OF that la] byte_index_in_range[OF that f(5)]
    by (simp add: index_def)
  have mem: "(y, i) \<in> set (differing d) \<longleftrightarrow>
      0 \<le> y \<and> y < ?h \<and> 0 \<le> i \<and> i < ?S \<and>
      index (Pix (lastDm d)) (y * ?S + i) \<noteq> index (Pix nx) (y * ?S + i)" for y i
    by (auto simp: differing_def assms(2) f(4) Let_def split: if_splits)
  show ?thesis
  proof (rule set_eqI)
    fix p :: "int \<times> int"
    obtain y i where p: "p = (y, i)" by (cases p)
    show "p \<in> set (differing d) \<longleftrightarrow> p \<in> diff_bytes (Pix (lastDm d)) (Pix nx) ?S ?h"
      unfolding p mem using ix[of y i] by (auto simp: diff_bytes_def diff_cols_def)
  qed
qed

lemma diff_bytes_empty_iff:
  assumes "0 \<le> S" "0 \<le> h" "int (length a) = S * h" "length c = length a"
  shows "diff_bytes a c S h = {} \<longleftrightarrow> a = c"
proof
  assume "a = c"
  then show "diff_bytes a c S h = {}" by (auto simp: diff_bytes_def diff_cols_def)
next
  assume e: "diff_bytes a c S h = {}"
  show "a = c"
  proof (rule nth_equalityI)
    show "length a = length c" using assms by simp
  next
    fix n assume n: "n < length a"
    then have Sh: "int n < S * h" using assms by simp
    then have S0: "0 < S" using assms(1,2) by (cases "S = 0") auto
    define y where "y = int n div S"
    define i where "i = int n mod S"
    have yi: "0 \<le> y" "0 \<le> i" "i < S" "y * S + i = int n"
      using S0 by (simp_all add: y_def i_def pos_imp_zdiv_nonneg_iff)
    have "y < h"
    proof (rule ccontr)
      assume "\<not> y < h"
      then have "h * S \<le> y * S" using S0 by (intro mult_right_mono) auto
      also have "\<dots> \<le> y * S + i" using yi(2) by simp
      also have "\<dots> < h * S" using Sh unfolding yi(4) by (simp add: mult.commute)
      finally show False by simp
    qed
    with e yi have "(y, i) \<notin> diff_bytes a c S h" by simp
    with yi \<open>y < h\<close> have "a ! nat (y * S + i) = c ! nat (y * S + i)"
      by (simp add: diff_bytes_def diff_cols_def)
    then show "a ! n = c ! n" by (simp add: yi(4))
  qed
qed

lemma Min_insert_above:
  assumes "finite A" "A \<noteq> {}" "\<forall>x\<in>A. x < (w::int)"
  shows "Min (insert w A) \<in> A" "\<forall>x\<in>A. Min (insert w A) \<le> x"
proof -
  have fin: "finite (insert w A)" using assms(1) by simp
  show le: "\<forall>x\<in>A. Min (insert w A) \<le> x" using fin by (auto intro: Min_le)
  have "Min (insert w A) \<in> insert w A" using fin by (intro Min_in) auto
  moreover have "Min (insert w A) \<noteq> w" using le assms(2,3) by fastforce
  ultimately show "Min (insert w A) \<in> A" by auto
qed

lemma Max_insert_below:
  assumes "finite A" "A \<noteq> {}" "\<forall>x\<in>A. (w::int) < x"
  shows "Max (insert w A) \<in> A" "\<forall>x\<in>A. x \<le> Max (insert w A)"
proof -
  have fin: "finite (insert w A)" using assms(1) by simp
  show le: "\<forall>x\<in>A. x \<le> Max (insert w A)" using fin by (auto intro: Max_ge)
  have "Max (insert w A) \<in> insert w A" using fin by (intro Max_in) auto
  moreover have "Max (insert w A) \<noteq> w" using le assms(2,3) by fastforce
  ultimately show "Max (insert w A) \<in> A" by auto
qed

lemma diff_bytes_range:
  assumes "p \<in> diff_bytes a c S h"
  shows "0 \<le> fst p" "fst p < h" "0 \<le> snd p" "snd p < S"
  using assms by (auto simp: diff_bytes_def diff_cols_def)

lemma calculateDiff_scan:
  assumes "buffers_ok d" and "next_img d = Some nx"
  shows "\<exists>r. calculateDiff d = Some r \<and>
             (no_change r \<longleftrightarrow> Pix (lastDm d) = Pix nx) \<and>
             (Pix (lastDm d) \<noteq> Pix nx \<longrightarrow> encloses_changes d r)"
proof -
  note f = buffers_ok_facts[OF assms]
  define a where "a = Pix (lastDm d)"
  define c where "c = Pix nx"
  define w where "w = Dx (rect d)"
  define h where "h = Dy (rect d)"
  define S where "S = w div 2"
  define P where "P = diff_bytes a c S h"
  have w0: "0 \<le> w" and h0: "0 \<le> h" and ev: "even w" and S0: "0 \<le> S"
    and lc: "int (length c) = S * h" and la: "int (length a) = S * h"
    using f by (simp_all add: w_def h_def S_def a_def c_def)
  obtain n where n: "h = int n" using h0 nonneg_int_cases by blast
  have rows: "for_each (diff_row a c S) [0 .. h - 1] (w, -1, h, -1) =
              Some (diff_state (w, -1, h, -1) P)"
    unfolding n P_def using S0 la lc by (intro scan_rows) (simp_all add: n mult.commute)
  have cd: "calculateDiff d =
     (case diff_state (w, -1, h, -1) P of (mnC, mxC, mnR, mxR) \<Rightarrow>
        Some (if mnC smod 2 \<noteq> 0 then mnC - 1 else mnC,
              if mxC smod 2 = 0 \<and> mxC < w - 1 then mxC + 1 else mxC, mnR, mxR))"
    using rows f(4)
    by (simp add: calculateDiff_def assms(2) Let_def a_def c_def w_def h_def S_def
             split: prod.splits)
  have Pd: "set (differing d) = P"
    using differing_set[OF assms] by (simp add: P_def a_def c_def S_def w_def h_def)
  have eq: "P = {} \<longleftrightarrow> a = c"
    unfolding P_def using S0 h0 la lc by (intro diff_bytes_empty_iff) auto
  have fin: "finite P" by (simp add: P_def)
  show ?thesis
  proof (cases "P = {}")
    case True
    have m1: "(-1::int) smod 2 \<noteq> 0" by (simp add: signed_modulo_int_def)
    have "calculateDiff d = Some (w, -1, h, -1)"
      using ev m1 by (simp add: cd True diff_state_def smod2_eq_0_iff)
    moreover have "no_change (w, -1, h, -1)" using w0 by (simp add: no_change_def)
    moreover have "a = c" using True eq by simp
    ultimately show ?thesis by (simp add: a_def c_def)
  next
    case False
    define c0 where "c0 = Min (insert w ((\<lambda>p. 2 * snd p) ` P))"
    define c1 where "c1 = Max (insert (-1) ((\<lambda>p. 2 * snd p + 1) ` P))"
    define r0 where "r0 = Min (insert h (fst ` P))"
    define r1 where "r1 = Max (insert (-1) (fst ` P))"
    have st: "diff_state (w, -1, h, -1) P = (c0, c1, r0, r1)"
      by (simp only: diff_state_def prod.case c0_def c1_def r0_def r1_def)
    have bw: "\<forall>x\<in>(\<lambda>p. 2 * snd p) ` P. x < w"
    proof
      fix x assume "x \<in> (\<lambda>p. 2 * snd p) ` P"
      then obtain p where p: "p \<in> P" "x = 2 * snd p" by auto
      then have "snd p < w div 2" using diff_bytes_range(4)[of p a c S h] by (simp add: P_def S_def)
      then show "x < w" using ev p(2) by (auto elim!: evenE)
    qed
    have b1: "\<forall>x\<in>(\<lambda>p. 2 * snd p + 1) ` P. -1 < x"
    proof
      fix x assume "x \<in> (\<lambda>p. 2 * snd p + 1) ` P"
      then obtain p where p: "p \<in> P" "x = 2 * snd p + 1" by auto
      then have "0 \<le> snd p" using diff_bytes_range(3)[of p a c S h] by (simp add: P_def)
      then show "-1 < x" using p(2) by simp
    qed
    have bh: "\<forall>x\<in>fst ` P. x < h"
      using diff_bytes_range(2)[of _ a c S h] by (auto simp: P_def)
    have b2: "\<forall>x\<in>fst ` P. -1 < x"
    proof
      fix x assume "x \<in> fst ` P"
      then obtain p where p: "p \<in> P" "x = fst p" by auto
      then have "0 \<le> fst p" using diff_bytes_range(1)[of p a c S h] by (simp add: P_def)
      then show "-1 < x" using p(2) by simp
    qed
    have ne: "(\<lambda>p. 2 * snd p) ` P \<noteq> {}" "(\<lambda>p. 2 * snd p + 1) ` P \<noteq> {}" "fst ` P \<noteq> {}"
      using False by auto
    obtain p0 where p0: "p0 \<in> P" "c0 = 2 * snd p0"
      using Min_insert_above(1)[OF _ ne(1) bw] fin unfolding c0_def by auto
    have c0le: "\<forall>p\<in>P. c0 \<le> 2 * snd p"
      using Min_insert_above(2)[OF _ ne(1) bw] fin unfolding c0_def by auto
    obtain p1 where p1: "p1 \<in> P" "c1 = 2 * snd p1 + 1"
      using Max_insert_below(1)[OF _ ne(2) b1] fin unfolding c1_def by auto
    have c1ge: "\<forall>p\<in>P. 2 * snd p + 1 \<le> c1"
      using Max_insert_below(2)[OF _ ne(2) b1] fin unfolding c1_def by auto
    obtain p2 where p2: "p2 \<in> P" "r0 = fst p2"
      using Min_insert_above(1)[OF _ ne(3) bh] fin unfolding r0_def by auto
    have r0le: "\<forall>p\<in>P. r0 \<le> fst p"
      using Min_insert_above(2)[OF _ ne(3) bh] fin unfolding r0_def by auto
    obtain p3 where p3: "p3 \<in> P" "r1 = fst p3"
      using Max_insert_below(1)[OF _ ne(3) b2] fin unfolding r1_def by auto
    have r1ge: "\<forall>p\<in>P. fst p \<le> r1"
      using Max_insert_below(2)[OF _ ne(3) b2] fin unfolding r1_def by auto
    have e0: "even c0" and o1: "odd c1" using p0(2) p1(2) by simp_all
    have res: "calculateDiff d = Some (c0, c1, r0, r1)"
      using e0 o1 by (simp add: cd st smod2_eq_0_iff)
    have "c0 \<le> 2 * snd p0" "2 * snd p0 + 1 \<le> c1" using c0le c1ge p0(1) by auto
    then have nc: "\<not> no_change (c0, c1, r0, r1)" by (simp add: no_change_def)
    have d0: "c0 div 2 = snd p0" and d1: "c1 div 2 = snd p1" using p0(2) p1(2) by simp_all
    have inside: "\<forall>(y, i)\<in>P. r0 \<le> y \<and> y \<le> r1 \<and> c0 div 2 \<le> i \<and> i \<le> c1 div 2"
    proof (clarify, intro conjI)
      fix y i assume yi: "(y, i) \<in> P"
      show "r0 \<le> y" using r0le yi by fastforce
      show "y \<le> r1" using r1ge yi by fastforce
      have "c0 \<le> 2 * i" using c0le yi by fastforce
      then show "c0 div 2 \<le> i" by simp
      have "2 * i + 1 \<le> c1" using c1ge yi by fastforce
      then show "i \<le> c1 div 2" by simp
    qed
    have edges: "\<exists>(y, i)\<in>P. y = r0" "\<exists>(y, i)\<in>P. y = r1"
      "\<exists>(y, i)\<in>P. i = c0 div 2" "\<exists>(y, i)\<in>P. i = c1 div 2"
      using p0(1) p1(1) p2 p3 d0 d1 by (auto simp: split_beta intro: bexI[of _ p2] bexI[of _ p3] bexI[of _ p0] bexI[of _ p1])
    have "encloses_changes d (c0, c1, r0, r1)"
      unfolding encloses_changes_def Pd prod.case using e0 o1 inside edges by blast
    moreover have "a \<noteq> c" using False eq by simp
    ultimately show ?thesis using res nc by (simp add: a_def c_def)
  qed
qed

text \<open>
  Claim C1. When the double buffer exists and it and the last displayed frame are packed
  images of the frame (equal dimensions), \<open>calculateDiff\<close> returns, without panicking,
  "no change" (\<open>minCol > maxCol\<close>) if and only if the two backing byte sequences are
  identical; when they differ its result is the least byte-aligned rectangle around the
  differing bytes: \<open>minCol\<close> is even, \<open>maxCol\<close> is odd, every differing byte lies in the
  rectangle, and the first and last row and the first and last byte-column of the
  rectangle each hold a differing byte.
\<close>

theorem calculateDiff_minimal:
  assumes "buffers_ok d" and "next_img d = Some nx"
  shows "\<exists>r. calculateDiff d = Some r \<and>
             (no_change r \<longleftrightarrow> Pix (lastDm d) = Pix nx) \<and>
             (Pix (lastDm d) \<noteq> Pix nx \<longrightarrow> encloses_changes d r)"
  using assms by (rule calculateDiff_scan)

theorem calculateDiff_minimal_witness:
  "buffers_ok
     \<lparr>rst = False, rect = Rect_of 0 0 4 2, columnOffset = 238, buffer = [0, 0, 0, 0],
      next_img = Some \<lparr>Pix = [0xAB, 0xCD, 0, 0], Stride = 2, Rect = Rect_of 0 0 4 2\<rparr>,
      lastDm = \<lparr>Pix = [0, 0, 0, 0], Stride = 2, Rect = Rect_of 0 0 4 2\<rparr>,
      minCol = 0, maxCol = 3, minRow = 0, maxRow = 1, halted = False\<rparr> \<and>
   calculateDiff
     \<lparr>rst = False, rect = Rect_of 0 0 4 2, columnOffset = 238, buffer = [0, 0, 0, 0],
      next_img = Some \<lparr>Pix = [0xAB, 0xCD, 0, 0], Stride = 2, Rect = Rect_of 0 0 4 2\<rparr>,
      lastDm = \<lparr>Pix = [0, 0, 0, 0], Stride = 2, Rect = Rect_of 0 0 4 2\<rparr>,
      minCol = 0, maxCol = 3, minRow = 0, maxRow = 1, halted = False\<rparr> = Some (0, 3, 0, 0) \<and>
   encloses_changes
     \<lparr>rst = False, rect = Rect_of 0 0 4 2, columnOffset = 238, buffer = [0, 0, 0, 0],
      next_img = Some \<lparr>Pix = [0xAB, 0xCD, 0, 0], Stride = 2, Rect = Rect_of 0 0 4 2\<rparr>,
      lastDm = \<lparr>Pix = [0, 0, 0, 0], Stride = 2, Rect = Rect_of 0 0 4 2\<rparr>,
      minCol = 0, maxCol = 3, minRow = 0, maxRow = 1, halted = False\<rparr> (0, 3, 0, 0)"
  (is "buffers_ok ?d \<and> calculateDiff ?d = Some ?r \<and> encloses_changes ?d ?r")
proof -
  have ok: "buffers_ok ?d" by code_simp
  have nx: "next_img ?d = Some \<lparr>Pix = [0xAB, 0xCD, 0, 0], Stride = 2, Rect = Rect_of 0 0 4 2\<rparr>"
    by simp
  have res: "calculateDiff ?d = Some ?r" by code_simp
  have "Pix (lastDm ?d) \<noteq> [0xAB, 0xCD, 0, 0]" by simp
  with calculateDiff_minimal[OF ok nx] res have "encloses_changes ?d ?r" by simp
  with ok res show ?thesis by simp
qed

section \<open>Addressing, halting and clipping\<close>

lemma frame_ok_facts:
  assumes "frame_ok d"
  shows "0 < Dx (rect d)" "Dx (rect d) \<le> 480" "even (Dx (rect d))"
    "0 < Dy (rect d)" "Dy (rect d) \<le> 128"
    "rect d = Rect_of 0 0 (Dx (rect d)) (Dy (rect d))"
    "columnOffset d = (480 - Dx (rect d)) div 2"
    "int (length (buffer d)) = Dx (rect d) * Dy (rect d) div 2"
  using assms by (auto simp: frame_ok_def Let_def smod2_eq_0_iff sdiv2_nonneg)

lemma uint_byte_of_int: "0 \<le> k \<Longrightarrow> k < 256 \<Longrightarrow> uint (word_of_int k :: byte) = k"
  by (simp add: uint_word_of_int take_bit_int_eq_self)

text \<open>
  Claim C7, amended. In a device with a frame \<open>NewSPI\<close> accepts, whose centring offset is
  \<open>(480 - width) / 2\<close>, \<open>writeRect\<close> called as \<open>Draw\<close> calls it for a rectangle
  \<open>(minCol, maxCol, minRow, maxRow)\<close> inside the frame sends, before the payload, the
  command bytes \<open>0x15, columnStart, columnEnd, 0x75, rowStart, rowEnd, 0x5C\<close> with
  \<open>columnStart = (minCol + offset) / 2\<close>, \<open>columnEnd = (maxCol + offset) / 2\<close>,
  \<open>rowStart = minRow\<close> and \<open>rowEnd = maxRow\<close>, none of them truncated by the conversion
  to a byte. The witness is the frame of width 256: offset 112, columns 0 to 255 give 56
  and 183.
\<close>

theorem writeRect_addressing:
  assumes "frame_ok d"
    and "0 \<le> mnC" "mnC \<le> mxC" "mxC < Dx (rect d)"
    and "0 \<le> mnR" "mnR \<le> mxR" "mxR < Dy (rect d)"
  shows "columnOffset d = (480 - Dx (rect d)) div 2 \<and>
         writeRect d mnC mnR (mxC - mnC + 1) (mxR - mnR + 1) pixels b =
           (case sendCommands
                   [0x15, word_of_int ((mnC + columnOffset d) div 2),
                          word_of_int ((mxC + columnOffset d) div 2),
                    0x75, word_of_int mnR, word_of_int mxR, 0x5C] b of
              (Some e, b') \<Rightarrow> (Some e, b')
            | (None, b') \<Rightarrow> sendData pixels b') \<and>
         uint (word_of_int ((mnC + columnOffset d) div 2) :: byte) = (mnC + columnOffset d) div 2 \<and>
         uint (word_of_int ((mxC + columnOffset d) div 2) :: byte) = (mxC + columnOffset d) div 2 \<and>
         uint (word_of_int mnR :: byte) = mnR \<and>
         uint (word_of_int mxR :: byte) = mxR"
proof -
  note f = frame_ok_facts[OF assms(1)]
  have off: "0 \<le> columnOffset d" "mxC + columnOffset d < 480"
    using f assms by (auto simp: f(7))
  have q: "(mnC + columnOffset d) sdiv 2 = (mnC + columnOffset d) div 2"
    "(mnC + (mxC - mnC + 1) - 1 + columnOffset d) sdiv 2 = (mxC + columnOffset d) div 2"
    using off assms by (simp_all add: sdiv2_nonneg)
  have w: "writeRect d mnC mnR (mxC - mnC + 1) (mxR - mnR + 1) pixels b =
           (case sendCommands
                   [0x15, word_of_int ((mnC + columnOffset d) div 2),
                          word_of_int ((mxC + columnOffset d) div 2),
                    0x75, word_of_int mnR, word_of_int mxR, 0x5C] b of
              (Some e, b') \<Rightarrow> (Some e, b')
            | (None, b') \<Rightarrow> sendData pixels b')"
    unfolding writeRect_def Let_def q by simp
  have u1: "uint (word_of_int ((mnC + columnOffset d) div 2) :: byte) = (mnC + columnOffset d) div 2"
    using off assms by (intro uint_byte_of_int) auto
  have u2: "uint (word_of_int ((mxC + columnOffset d) div 2) :: byte) = (mxC + columnOffset d) div 2"
    using off assms by (intro uint_byte_of_int) auto
  have u3: "uint (word_of_int mnR :: byte) = mnR" "uint (word_of_int mxR :: byte) = mxR"
    using f assms by (auto intro!: uint_byte_of_int)
  show ?thesis using w u1 u2 u3 f(7) by simp
qed

text \<open>
  Claim C9. \<open>Halt\<close> sets \<open>halted\<close> whatever it was and whatever the bus answers;
  \<open>Draw\<close> and \<open>Write\<close> on a halted device, so on the device \<open>Halt\<close> returns, fail
  with the halted error; \<open>Write\<close> on a device that is not halted, with a buffer whose
  length is not \<open>width * height / 2\<close>, fails with the size error; and each of these
  failures returns the device and the bus as they were.
\<close>

theorem halted_and_size_errors:
  "(case Halt d b of (e, d', b') \<Rightarrow>
      d' = d\<lparr>halted := True\<rparr> \<and> halted d' \<and>
      Draw d' dst src sp bb = Some (Some ErrHalted, d', bb) \<and>
      Write d' pixels bb = ((0, Some ErrHalted), d', bb)) \<and>
   (halted d \<longrightarrow> Draw d dst src sp b = Some (Some ErrHalted, d, b) \<and>
                  Write d pixels b = ((0, Some ErrHalted), d, b)) \<and>
   (\<not> halted d \<and> frame_ok d \<and> int (length pixels) \<noteq> Dx (rect d) * Dy (rect d) div 2 \<longrightarrow>
      Write d pixels b = ((0, Some ErrBufferSize), d, b))"
proof -
  have h: "\<exists>e b'. Halt d b = (e, d\<lparr>halted := True\<rparr>, b')"
    by (simp add: Halt_def split: prod.splits)
  have s: "length pixels \<noteq> length (buffer d)"
    if "frame_ok d" "int (length pixels) \<noteq> Dx (rect d) * Dy (rect d) div 2"
    using that frame_ok_facts(8)[OF that(1)] by auto
  show ?thesis
    using h s by (auto simp: Draw_def Write_def split: prod.splits)
qed

text \<open>
  Claim C10. On a device that is not halted, \<open>Draw\<close> with a destination rectangle whose
  intersection with the display bounds is empty returns nil at once: the device and the
  bus are as they were.
\<close>

theorem Draw_outside_display:
  assumes "\<not> halted d" and "Empty (Intersect dst (rect d))"
  shows "Draw d dst src sp b = Some (None, d, b)"
  using assms by (simp add: Draw_def)

theorem writeRect_addressing_witness:
  "frame_ok
     \<lparr>rst = False, rect = Rect_of 0 0 256 64, columnOffset = 112, buffer = replicate 8192 0,
      next_img = None, lastDm = \<lparr>Pix = [], Stride = 0, Rect = ZR\<rparr>,
      minCol = 0, maxCol = 255, minRow = 0, maxRow = 63, halted = False\<rparr> \<and>
   writeRect
     \<lparr>rst = False, rect = Rect_of 0 0 256 64, columnOffset = 112, buffer = replicate 8192 0,
      next_img = None, lastDm = \<lparr>Pix = [], Stride = 0, Rect = ZR\<rparr>,
      minCol = 0, maxCol = 255, minRow = 0, maxRow = 63, halted = False\<rparr>
     0 0 256 64 [] \<lparr>calls = [], faults = []\<rparr> =
   (None, \<lparr>calls = [DC_Out False, Tx [0x15, 56, 183, 0x75, 0, 63, 0x5C], DC_Out True, Tx []],
           faults = []\<rparr>)"
  (is "frame_ok ?d \<and> _")
proof -
  have ok: "frame_ok ?d"
    by (simp add: frame_ok_def Rect_of_def Dx_def Dy_def Pt_def signed_divide_int_def
        signed_modulo_int_def)
  have dims: "Dx (rect ?d) = 256" "Dy (rect ?d) = 64"
    by (simp_all add: Rect_of_def Dx_def Dy_def Pt_def)
  show ?thesis
    using ok writeRect_addressing[OF ok, of 0 255 0 63 "[]" "\<lparr>calls = [], faults = []\<rparr>"]
    by (simp add: Rect_of_def Dx_def Dy_def Pt_def sendCommands_def sendData_def invoke_def)
qed

text \<open>
  Claim C7 as stated fails for a rectangle outside the frame: \<open>writeRect\<close> converts
  each address to a byte. On the frame of width 256 the rectangle of the single pixel
  \<open>(600, 300)\<close> has the column address \<open>(600 + 112) / 2 = 356\<close> and the row address
  300; the bytes sent are 100 and 44.
\<close>

theorem writeRect_truncates_outside_frame:
  "frame_ok
     \<lparr>rst = False, rect = Rect_of 0 0 256 64, columnOffset = 112, buffer = replicate 8192 0,
      next_img = None, lastDm = \<lparr>Pix = [], Stride = 0, Rect = ZR\<rparr>,
      minCol = 0, maxCol = 255, minRow = 0, maxRow = 63, halted = False\<rparr> \<and>
   writeRect
     \<lparr>rst = False, rect = Rect_of 0 0 256 64, columnOffset = 112, buffer = replicate 8192 0,
      next_img = None, lastDm = \<lparr>Pix = [], Stride = 0, Rect = ZR\<rparr>,
      minCol = 0, maxCol = 255, minRow = 0, maxRow = 63, halted = False\<rparr>
     600 300 (600 - 600 + 1) (300 - 300 + 1) [] \<lparr>calls = [], faults = []\<rparr> =
   (None, \<lparr>calls = [DC_Out False, Tx [0x15, 100, 100, 0x75, 44, 44, 0x5C], DC_Out True, Tx []],
           faults = []\<rparr>) \<and>
   map uint [100, 100, 44, 44 :: byte] \<noteq>
     [(600 + 112) div 2, (600 + 112) div 2, 300, 300]"
  by (simp add: frame_ok_def Rect_of_def Dx_def Dy_def Pt_def signed_divide_int_def
      signed_modulo_int_def writeRect_def sendCommands_def sendData_def invoke_def)

theorem halted_and_size_errors_witness:
  "Halt \<lparr>rst = False, rect = Rect_of 0 0 4 2, columnOffset = 238, buffer = [0, 0, 0, 0],
         next_img = None, lastDm = \<lparr>Pix = [], Stride = 0, Rect = ZR\<rparr>,
         minCol = 0, maxCol = 3, minRow = 0, maxRow = 1, halted = True\<rparr>
        \<lparr>calls = [], faults = []\<rparr> =
     (None,
      \<lparr>rst = False, rect = Rect_of 0 0 4 2, columnOffset = 238, buffer = [0, 0, 0, 0],
       next_img = None, lastDm = \<lparr>Pix = [], Stride = 0, Rect = ZR\<rparr>,
       minCol = 0, maxCol = 3, minRow = 0, maxRow = 1, halted = True\<rparr>,
      \<lparr>calls = [DC_Out False, Tx [0xAE]], faults = []\<rparr>) \<and>
   Write \<lparr>rst = False, rect = Rect_of 0 0 4 2, columnOffset = 238, buffer = [0, 0, 0, 0],
          next_img = None, lastDm = \<lparr>Pix = [], Stride = 0, Rect = ZR\<rparr>,
          minCol = 0, maxCol = 3, minRow = 0, maxRow = 1, halted = True\<rparr>
         [1, 2, 3, 4] \<lparr>calls = [], faults = []\<rparr> =
     ((0, Some ErrHalted),
      \<lparr>rst = False, rect = Rect_of 0 0 4 2, columnOffset = 238, buffer = [0, 0, 0, 0],
       next_img = None, lastDm = \<lparr>Pix = [], Stride = 0, Rect = ZR\<rparr>,
       minCol = 0, maxCol = 3, minRow = 0, maxRow = 1, halted = True\<rparr>,
      \<lparr>calls = [], faults = []\<rparr>) \<and>
   frame_ok
     \<lparr>rst = False, rect = Rect_of 0 0 4 2, columnOffset = 238, buffer = [0, 0, 0, 0],
      next_img = None, lastDm = \<lparr>Pix = [], Stride = 0, Rect = ZR\<rparr>,
      minCol = 0, maxCol = 3, minRow = 0, maxRow = 1, halted = False\<rparr> \<and>
   Write \<lparr>rst = False, rect = Rect_of 0 0 4 2, columnOffset = 238, buffer = [0, 0, 0, 0],
          next_img = None, lastDm = \<lparr>Pix = [], Stride = 0, Rect = ZR\<rparr>,
          minCol = 0, maxCol = 3, minRow = 0, maxRow = 1, halted = False\<rparr>
         [1, 2, 3] \<lparr>calls = [], faults = []\<rparr> =
     ((0, Some ErrBufferSize),
      \<lparr>rst = False, rect = Rect_of 0 0 4 2, columnOffset = 238, buffer = [0, 0, 0, 0],
       next_img = None, lastDm = \<lparr>Pix = [], Stride = 0, Rect = ZR\<rparr>,
       minCol = 0, maxCol = 3, minRow = 0, maxRow = 1, halted = False\<rparr>,
      \<lparr>calls = [], faults = []\<rparr>)"
  (is "Halt ?h ?b = _ \<and> Write ?h ?p4 ?b = _ \<and> frame_ok ?d \<and> Write ?d ?p3 ?b = _")
proof -
  have ok: "frame_ok ?d"
    by (simp add: frame_ok_def Rect_of_def Dx_def Dy_def Pt_def signed_divide_int_def
        signed_modulo_int_def)
  have dims: "Dx (rect ?d) = 4" "Dy (rect ?d) = 2"
    by (simp_all add: Rect_of_def Dx_def Dy_def Pt_def)
  have hl: "Halt ?h ?b = (None, ?h, \<lparr>calls = [DC_Out False, Tx [0xAE]], faults = []\<rparr>)"
    by (simp add: Halt_def sendCommand_def sendCommands_def invoke_def)
  have a: "Write ?h ?p4 ?b = ((0, Some ErrHalted), ?h, ?b)"
    using halted_and_size_errors[where d = ?h and bb = ?b and pixels = ?p4]
    by simp
  have c: "Write ?d ?p3 ?b = ((0, Some ErrBufferSize), ?d, ?b)"
    using ok halted_and_size_errors[where d = ?d and b = ?b and pixels = ?p3]
    by (simp add: Rect_of_def Dx_def Dy_def Pt_def)
  show ?thesis using hl a ok c by simp
qed

theorem Draw_outside_display_witness:
  "\<not> halted
     \<lparr>rst = False, rect = Rect_of 0 0 4 2, columnOffset = 238, buffer = [0, 0, 0, 0],
      next_img = None, lastDm = \<lparr>Pix = [], Stride = 0, Rect = ZR\<rparr>,
      minCol = 0, maxCol = 3, minRow = 0, maxRow = 1, halted = False\<rparr> \<and>
   Empty (Intersect (Rect_of 4 0 8 2) (Rect_of 0 0 4 2)) \<and>
   Draw \<lparr>rst = False, rect = Rect_of 0 0 4 2, columnOffset = 238, buffer = [0, 0, 0, 0],
         next_img = None, lastDm = \<lparr>Pix = [], Stride = 0, Rect = ZR\<rparr>,
         minCol = 0, maxCol = 3, minRow = 0, maxRow = 1, halted = False\<rparr>
        (Rect_of 4 0 8 2) (Other_image (Rect_of 0 0 4 2) (\<lambda>x y. Gray4_color (Gray4 15)))
        (Pt 0 0) \<lparr>calls = [], faults = []\<rparr> =
     Some (None,
           \<lparr>rst = False, rect = Rect_of 0 0 4 2, columnOffset = 238, buffer = [0, 0, 0, 0],
            next_img = None, lastDm = \<lparr>Pix = [], Stride = 0, Rect = ZR\<rparr>,
            minCol = 0, maxCol = 3, minRow = 0, maxRow = 1, halted = False\<rparr>,
           \<lparr>calls = [], faults = []\<rparr>)"
  (is "\<not> halted ?d \<and> Empty ?r \<and> _")
proof -
  have nh: "\<not> halted ?d" by simp
  have em: "Empty (Intersect (Rect_of 4 0 8 2) (rect ?d))"
    by (simp add: Empty_def Intersect_def Rect_of_def Pt_def ZR_def Let_def)
  show ?thesis
    using nh em Draw_outside_display[OF nh em] by simp
qed

section \<open>Extracting the changed region\<close>

lemma take_drop_upto:
  assumes "0 \<le> s" "s + int n \<le> int (length xs)"
  shows "take n (drop (nat s) xs) = map (\<lambda>i. xs ! nat (s + i)) [0 .. int n - 1]"
  using assms
proof (induction n)
  case 0
  then show ?case by simp
next
  case (Suc n)
  have lt: "n < length (drop (nat s) xs)" using Suc.prems by auto
  have "take (Suc n) (drop (nat s) xs) = take n (drop (nat s) xs) @ [drop (nat s) xs ! n]"
    using lt by (rule take_Suc_conv_app_nth)
  also have "drop (nat s) xs ! n = xs ! nat (s + int n)"
    using Suc.prems by (simp add: nat_add_distrib)
  also have "take n (drop (nat s) xs) = map (\<lambda>i. xs ! nat (s + i)) [0 .. int n - 1]"
    using Suc by simp
  finally show ?case unfolding upto_Suc_snoc by simp
qed

lemma map_upto_shift: "map f [lo .. hi] = map (\<lambda>i. f (lo + i)) [0 .. hi - lo]"
proof (rule nth_equalityI)
  show "length (map f [lo .. hi]) = length (map (\<lambda>i. f (lo + i)) [0 .. hi - lo])" by simp
next
  fix k assume "k < length (map f [lo .. hi])"
  then have k: "lo + int k \<le> hi" "0 + int k \<le> hi - lo" by auto
  show "map f [lo .. hi] ! k = map (\<lambda>i. f (lo + i)) [0 .. hi - lo] ! k"
    using k by (simp add: nth_upto[OF k(1)] nth_upto[OF k(2)])
qed

lemma copy_into_zeros:
  "length r = k \<Longrightarrow> copy (replicate (k + m) z) r = r @ replicate m z"
  by (simp add: copy_def)

lemma extract_rows:
  assumes "next_img d = Some nx" and "0 \<le> bw"
    and "\<forall>y\<in>set ys. slice (Pix nx) (y * S + mnC sdiv 2) (y * S + mnC sdiv 2 + bw) = Some (R y) \<and>
                     length (R y) = nat bw"
  shows "for_each (extract_row d S bw mnC) ys
           (pre @ replicate (nat bw * length ys) 0, int (length pre)) =
         Some (pre @ concat (map R ys), int (length pre) + bw * int (length ys))"
  using assms(3)
proof (induction ys arbitrary: pre)
  case Nil
  then show ?case by simp
next
  case (Cons y ys)
  have sl: "slice (Pix nx) (y * S + mnC sdiv 2) (y * S + mnC sdiv 2 + bw) = Some (R y)"
    and len: "length (R y) = nat bw"
    using Cons.prems by auto
  have cp: "copy (replicate (nat bw + nat bw * length ys) 0) (R y) = R y @ replicate (nat bw * length ys) 0"
    using len by (rule copy_into_zeros)
  have step: "extract_row d S bw mnC y (pre @ replicate (nat bw * length (y # ys)) 0, int (length pre)) =
        Some ((pre @ R y) @ replicate (nat bw * length ys) 0, int (length (pre @ R y)))"
    using assms(2) by (simp add: extract_row_def Let_def slice_from_def assms(1) sl cp len)
  have ih: "for_each (extract_row d S bw mnC) ys
           ((pre @ R y) @ replicate (nat bw * length ys) 0, int (length (pre @ R y))) =
         Some ((pre @ R y) @ concat (map R ys), int (length (pre @ R y)) + bw * int (length ys))"
    using Cons.prems by (intro Cons.IH) auto
  show ?case
    unfolding for_each.simps step option.case ih using assms(2)
    by (simp add: len algebra_simps)
qed

lemma packed_frame_facts:
  assumes "packed nx" "Rect nx = rect d"
  shows "0 \<le> Dx (rect d)" "0 \<le> Dy (rect d)" "even (Dx (rect d))"
    "Dx (rect d) sdiv 2 = Dx (rect d) div 2"
    "int (length (Pix nx)) = (Dx (rect d) div 2) * Dy (rect d)"
  using assms by (auto simp: packed_def smod2_eq_0_iff sdiv2_nonneg)

lemma extractRegion_aligned:
  assumes "next_img d = Some nx" and "packed nx" and "Rect nx = rect d"
    and "inside_frame d mnC mxC mnR mxR" and "even mnC" and "odd mxC"
  shows "extractRegion d mnC mxC mnR mxR =
           Some (concat (map (\<lambda>y. row_bytes (Pix nx) (Dx (rect d) div 2) y (mnC div 2) (mxC div 2))
                             [mnR .. mxR]))"
proof -
  note f = packed_frame_facts[OF assms(2,3)]
  define S where "S = Dx (rect d) div 2"
  define h where "h = Dy (rect d)"
  define lo where "lo = mnC div 2"
  define hi where "hi = mxC div 2"
  define bw where "bw = hi - lo + 1"
  have b: "0 \<le> mnC" "mnC \<le> mxC" "mxC < Dx (rect d)" "0 \<le> mnR" "mnR \<le> mxR" "mxR < h"
    using assms(4) by (simp_all add: inside_frame_def h_def)
  have lo0: "0 \<le> lo" and lohi: "lo \<le> hi" and hiS: "hi < S"
    using b f(3) assms(5,6) unfolding lo_def hi_def S_def by presburger+
  have bw0: "0 < bw" using lohi by (simp add: bw_def)
  have wd: "(mxC - mnC + 1) sdiv 2 = bw"
  proof -
    have "(mxC - mnC + 1) sdiv 2 = (mxC - mnC + 1) div 2" using b by (intro sdiv2_nonneg) simp
    also have "\<dots> = bw" using assms(5,6) unfolding bw_def lo_def hi_def by presburger
    finally show ?thesis .
  qed
  have los: "mnC sdiv 2 = lo" using b by (simp add: sdiv2_nonneg lo_def)
  have Ss: "Dx (rect d) sdiv 2 = S" using f by (simp add: S_def)
  have len: "int (length (Pix nx)) = S * h" using f by (simp add: S_def h_def)
  define R where "R = (\<lambda>y. row_bytes (Pix nx) S y lo hi)"
  have rows: "\<forall>y\<in>set [mnR .. mxR].
      slice (Pix nx) (y * S + mnC sdiv 2) (y * S + mnC sdiv 2 + bw) = Some (R y) \<and>
      length (R y) = nat bw"
  proof
    fix y assume "y \<in> set [mnR .. mxR]"
    then have y: "0 \<le> y" "y < h" using b by auto
    have S0: "0 \<le> S" using lo0 lohi hiS by simp
    have s0: "0 \<le> y * S + lo" using y lo0 S0 by simp
    have "y * S + lo + bw \<le> y * S + S" using hiS by (simp add: bw_def)
    also have "\<dots> = (y + 1) * S" by (simp add: algebra_simps)
    also have "\<dots> \<le> h * S" using y S0 by (intro mult_right_mono) auto
    finally have s1: "y * S + lo + bw \<le> int (length (Pix nx))" by (simp add: len mult.commute)
    obtain n where n: "bw = int n" using bw0 nonneg_int_cases[of bw] by auto
    have "take n (drop (nat (y * S + lo)) (Pix nx)) =
          map (\<lambda>i. Pix nx ! nat (y * S + lo + i)) [0 .. int n - 1]"
      using s0 s1 by (intro take_drop_upto) (simp_all add: n)
    also have "\<dots> = map (\<lambda>i. Pix nx ! nat (y * S + i)) [lo .. hi]"
    proof -
      have "int n - 1 = hi - lo" using n by (simp add: bw_def)
      then show ?thesis unfolding map_upto_shift[of _ lo hi] by (simp add: add.assoc)
    qed
    finally have tk: "take n (drop (nat (y * S + lo)) (Pix nx)) = R y"
      by (simp add: R_def row_bytes_def)
    have "slice (Pix nx) (y * S + lo) (y * S + lo + bw) = Some (R y)"
      using s0 s1 bw0 tk by (simp add: slice_def n)
    moreover have "length (R y) = nat bw"
      using lohi by (simp add: R_def row_bytes_def bw_def)
    ultimately show "slice (Pix nx) (y * S + mnC sdiv 2) (y * S + mnC sdiv 2 + bw) = Some (R y) \<and>
      length (R y) = nat bw" by (simp add: los)
  qed
  have hl: "int (length [mnR .. mxR]) = mxR - mnR + 1" using b by simp
  have mk: "make_bytes (bw * (mxR - mnR + 1)) = Some ([] @ replicate (nat bw * length [mnR .. mxR]) 0)"
  proof -
    have "nat (bw * (mxR - mnR + 1)) = nat bw * length [mnR .. mxR]"
      using bw0 b by (simp add: nat_mult_distrib)
    moreover have "\<not> bw * (mxR - mnR + 1) < 0" using bw0 b by (simp add: mult_less_0_iff)
    ultimately show ?thesis by (simp add: make_bytes_def)
  qed
  have loop: "for_each (extract_row d S bw mnC) [mnR .. mxR]
           ([] @ replicate (nat bw * length [mnR .. mxR]) 0, int (length ([]::byte list))) =
         Some ([] @ concat (map R [mnR .. mxR]),
               int (length ([]::byte list)) + bw * int (length [mnR .. mxR]))"
    using assms(1) bw0 rows by (intro extract_rows) auto
  show ?thesis
    unfolding extractRegion_def Let_def wd Ss mk option.case
    using loop by (simp add: R_def S_def lo_def hi_def)
qed

text \<open>
  Claim C6, amended. \<open>extractRegion\<close> makes no bounds check and has no out-of-range
  error. For a rectangle that lies in the frame and is byte-aligned (\<open>minCol\<close> even,
  \<open>maxCol\<close> odd, as every rectangle of \<open>calculateDiff\<close> is), it returns without
  panicking, row after row from \<open>minRow\<close> to \<open>maxRow\<close>, the bytes of that row from
  byte-column \<open>minCol / 2\<close> to byte-column \<open>maxCol / 2\<close>, both included.
\<close>

theorem extractRegion_rows:
  assumes "next_img d = Some nx" and "packed nx" and "Rect nx = rect d"
    and "inside_frame d mnC mxC mnR mxR" and "even mnC" and "odd mxC"
  shows "extractRegion d mnC mxC mnR mxR =
           Some (concat (map (\<lambda>y. row_bytes (Pix nx) (Dx (rect d) div 2) y (mnC div 2) (mxC div 2))
                             [mnR .. mxR]))"
  using assms by (rule extractRegion_aligned)

theorem extractRegion_rows_witness:
  "packed \<lparr>Pix = [0x00, 0x11, 0x22, 0x33, 0x44, 0x55, 0x66, 0x77], Stride = 4,
           Rect = Rect_of 0 0 8 2\<rparr> \<and>
   inside_frame
     \<lparr>rst = False, rect = Rect_of 0 0 8 2, columnOffset = 0, buffer = [],
      next_img = Some \<lparr>Pix = [0x00, 0x11, 0x22, 0x33, 0x44, 0x55, 0x66, 0x77], Stride = 4,
                       Rect = Rect_of 0 0 8 2\<rparr>,
      lastDm = \<lparr>Pix = [], Stride = 0, Rect = ZR\<rparr>,
      minCol = 0, maxCol = 0, minRow = 0, maxRow = 0, halted = False\<rparr> 2 5 0 0 \<and>
   extractRegion
     \<lparr>rst = False, rect = Rect_of 0 0 8 2, columnOffset = 0, buffer = [],
      next_img = Some \<lparr>Pix = [0x00, 0x11, 0x22, 0x33, 0x44, 0x55, 0x66, 0x77], Stride = 4,
                       Rect = Rect_of 0 0 8 2\<rparr>,
      lastDm = \<lparr>Pix = [], Stride = 0, Rect = ZR\<rparr>,
      minCol = 0, maxCol = 0, minRow = 0, maxRow = 0, halted = False\<rparr> 2 5 0 0 =
     Some [0x11, 0x22]"
  (is "packed ?nx \<and> inside_frame ?d 2 5 0 0 \<and> _")
proof -
  have nx: "next_img ?d = Some ?nx" by simp
  have pk: "packed ?nx" by code_simp
  have rc: "Rect ?nx = rect ?d" by simp
  have ins: "inside_frame ?d 2 5 0 0" by code_simp
  have rb: "concat (map (\<lambda>y. row_bytes (Pix ?nx) (Dx (rect ?d) div 2) y (2 div 2) (5 div 2))
                        [0 .. 0]) = [0x11, 0x22]"
    by code_simp
  show ?thesis
    using pk ins extractRegion_rows[OF nx pk rc ins] rb by simp
qed

text \<open>
  Claim C6 as stated fails: on the 8 x 2 frame the rectangle of columns 6 to 9 leaves the
  frame, and \<open>extractRegion\<close> returns the last byte of row 0 and the first byte of row 1
  instead of failing.
\<close>

theorem extractRegion_no_bounds_check:
  "\<not> inside_frame
     \<lparr>rst = False, rect = Rect_of 0 0 8 2, columnOffset = 0, buffer = [],
      next_img = Some \<lparr>Pix = [0x00, 0x11, 0x22, 0x33, 0x44, 0x55, 0x66, 0x77], Stride = 4,
                       Rect = Rect_of 0 0 8 2\<rparr>,
      lastDm = \<lparr>Pix = [], Stride = 0, Rect = ZR\<rparr>,
      minCol = 0, maxCol = 0, minRow = 0, maxRow = 0, halted = False\<rparr> 6 9 0 0 \<and>
   extractRegion
     \<lparr>rst = False, rect = Rect_of 0 0 8 2, columnOffset = 0, buffer = [],
      next_img = Some \<lparr>Pix = [0x00, 0x11, 0x22, 0x33, 0x44, 0x55, 0x66, 0x77], Stride = 4,
                       Rect = Rect_of 0 0 8 2\<rparr>,
      lastDm = \<lparr>Pix = [], Stride = 0, Rect = ZR\<rparr>,
      minCol = 0, maxCol = 0, minRow = 0, maxRow = 0, halted = False\<rparr> 6 9 0 0 =
     Some [0x33, 0x44]"
  by code_simp

section \<open>Rendering and committing\<close>

lemma for_each_invariant:
  assumes "for_each f xs s = Some s'" and "P s"
    and "\<And>x t t'. P t \<Longrightarrow> f x t = Some t' \<Longrightarrow> P t'"
  shows "P s'"
  using assms(1,2)
proof (induction xs arbitrary: s)
  case Nil
  then show ?case by simp
next
  case (Cons x xs)
  then obtain t where t: "f x s = Some t" "for_each f xs t = Some s'"
    by (auto split: option.splits)
  then show ?case using Cons assms(3) by blast
qed

lemma same_shape_packed: "same_shape p q \<Longrightarrow> packed p \<Longrightarrow> packed q"
  by (simp add: same_shape_def packed_def)

lemma Set_shape: "Set p x y c = Some p' \<Longrightarrow> same_shape p p'"
  by (auto simp: Set_def same_shape_def store_def split: if_splits prod.splits option.splits)

lemma draw_pixel_shape: "same_shape p t \<Longrightarrow> draw_pixel src r sp y x t = Some t' \<Longrightarrow> same_shape p t'"
  using Set_shape[of t x y _ t']
  by (auto simp: draw_pixel_def same_shape_def split: option.splits)

lemma draw_row_shape: "same_shape p t \<Longrightarrow> draw_row src r sp y t = Some t' \<Longrightarrow> same_shape p t'"
  unfolding draw_row_def
  by (erule for_each_invariant[where P = "same_shape p", rotated]) (auto intro: draw_pixel_shape)

lemma draw_Draw_shape: "draw_Draw p r src sp = Some p' \<Longrightarrow> same_shape p p'"
proof -
  assume a: "draw_Draw p r src sp = Some p'"
  have refl: "same_shape p p" by (simp add: same_shape_def)
  obtain r' sp' where c: "clip (Rect p) r (Bounds src) sp = (r', sp')" by (cases "clip (Rect p) r (Bounds src) sp")
  show ?thesis
  proof (cases "Empty r'")
    case True
    then show ?thesis using a c refl by (simp add: draw_Draw_def)
  next
    case False
    then have "for_each (draw_row src r' sp') [Y (Min_pt r') .. Y (Max_pt r') - 1] p = Some p'"
      using a c by (simp add: draw_Draw_def)
    then show ?thesis
      by (rule for_each_invariant[where P = "same_shape p"]) (auto intro: refl draw_row_shape)
  qed
qed

lemma even_half_mult: "even (w::int) \<Longrightarrow> w * h div 2 = (w div 2) * h"
  by (auto elim!: evenE)

lemma Rect_of_dims:
  "0 \<le> w \<Longrightarrow> 0 \<le> h \<Longrightarrow> Dx (Rect_of 0 0 w h) = w \<and> Dy (Rect_of 0 0 w h) = h"
  by (auto simp: Rect_of_def Dx_def Dy_def Pt_def)

lemma copy_same_length: "length src = length dst \<Longrightarrow> copy dst src = src"
  by (simp add: copy_def)

lemma ensure_next_ok:
  assumes "dev_ok d"
  shows "\<exists>d1 nx. ensure_next d = Some d1 \<and> dev_ok d1 \<and> next_img d1 = Some nx \<and>
           d1 = d\<lparr>next_img := Some nx, lastDm := lastDm d1\<rparr> \<and>
           (case next_img d of Some n0 \<Rightarrow> d1 = d | None \<Rightarrow> Pix (lastDm d1) = buffer d)"
proof (cases "next_img d")
  case (Some n0)
  then show ?thesis using assms by (simp add: ensure_next_def)
next
  case None
  have fo: "frame_ok d" using assms by (simp add: dev_ok_def)
  note f = frame_ok_facts[OF fo]
  define w where "w = Dx (rect d)"
  define h where "h = Dy (rect d)"
  define nx where "nx = \<lparr>Pix = replicate (nat (w div 2 * h)) (0::byte), Stride = w div 2, Rect = rect d\<rparr>"
  have wh: "0 < w" "0 < h" "even w" using f by (simp_all add: w_def h_def)
  have nh: "NewHorizontalNibble (rect d) = Some nx"
    using wh by (simp add: NewHorizontalNibble_def Let_def w_def[symmetric] h_def[symmetric]
        smod2_eq_0_iff sdiv2_nonneg make_bytes_def nx_def mult_less_0_iff)
  have pk: "packed nx"
    using wh by (simp add: packed_def nx_def w_def[symmetric] h_def[symmetric] smod2_eq_0_iff
        sdiv2_nonneg)
  define d1 where "d1 = d\<lparr>next_img := Some nx,
      lastDm := \<lparr>Pix = copy (replicate (length (buffer d)) 0) (buffer d), Stride = Stride nx, Rect = rect d\<rparr>\<rparr>"
  have en: "ensure_next d = Some d1"
    by (simp add: ensure_next_def None nh make_bytes_def d1_def)
  have cp: "copy (replicate (length (buffer d)) (0::byte)) (buffer d) = buffer d"
    by (simp add: copy_def)
  have len: "int (length (buffer d)) = w div 2 * h"
    using f(8) wh(3) by (simp add: w_def[symmetric] h_def[symmetric] even_half_mult)
  have "length (buffer d) = length (Pix nx)"
    using len wh by (simp add: nx_def)
  then have bo: "buffers_ok d1"
    using pk unfolding buffers_ok_def d1_def cp by (simp add: nx_def)
  have fo1: "frame_ok d1" using fo by (simp add: frame_ok_def d1_def)
  show ?thesis
    using en bo fo1 unfolding d1_def cp by (auto simp: dev_ok_def None)
qed

lemma render_ok:
  assumes "dev_ok d" and "render d r src sp = Some d2"
  shows "dev_ok d2 \<and> (\<exists>nx. next_img d2 = Some nx) \<and>
         buffer d2 = buffer d \<and> halted d2 = halted d \<and> rect d2 = rect d \<and>
         columnOffset d2 = columnOffset d \<and> rst d2 = rst d \<and>
         (case next_img d of Some n0 \<Rightarrow> lastDm d2 = lastDm d | None \<Rightarrow> Pix (lastDm d2) = buffer d)"
proof -
  obtain d1 nx where e: "ensure_next d = Some d1" "dev_ok d1" "next_img d1 = Some nx"
      "d1 = d\<lparr>next_img := Some nx, lastDm := lastDm d1\<rparr>"
      "case next_img d of Some n0 \<Rightarrow> d1 = d | None \<Rightarrow> Pix (lastDm d1) = buffer d"
    using ensure_next_ok[OF assms(1)] by blast
  obtain nx' where dr: "draw_Draw nx r src sp = Some nx'" and d2: "d2 = d1\<lparr>next_img := Some nx'\<rparr>"
    using assms(2) by (auto simp: render_def e(1,3) split: option.splits)
  have sh: "same_shape nx nx'" using dr by (rule draw_Draw_shape)
  have bo: "buffers_ok d2"
    using e(2) sh by (auto simp: dev_ok_def buffers_ok_def e(3) d2 same_shape_def packed_def)
  have fo: "frame_ok d2" using e(2) by (simp add: dev_ok_def frame_ok_def d2)
  have fields: "buffer d1 = buffer d" "halted d1 = halted d" "rect d1 = rect d"
    "columnOffset d1 = columnOffset d" "rst d1 = rst d"
    by (subst e(4), simp)+
  show ?thesis
    using bo fo fields e(5) by (auto simp: dev_ok_def d2 split: option.splits)
qed

lemma differing_range:
  assumes "buffers_ok d" "next_img d = Some nx" "(y, i) \<in> set (differing d)"
  shows "0 \<le> y" "y < Dy (rect d)" "0 \<le> i" "i < Dx (rect d) div 2"
  using assms(3) diff_bytes_range[of "(y, i)"] unfolding differing_set[OF assms(1,2)] by auto

lemma encloses_inside:
  assumes "buffers_ok d" "next_img d = Some nx" "encloses_changes d (c0, c1, r0, r1)"
  shows "inside_frame d c0 c1 r0 r1" "even c0" "odd c1"
proof -
  note f = buffers_ok_facts[OF assms(1,2)]
  note rg = differing_range[OF assms(1,2)]
  have e: "even c0" "odd c1"
    and ins: "\<And>y i. (y, i) \<in> set (differing d) \<Longrightarrow> r0 \<le> y \<and> y \<le> r1 \<and> c0 div 2 \<le> i \<and> i \<le> c1 div 2"
    and ex: "\<exists>(y, i)\<in>set (differing d). y = r0" "\<exists>(y, i)\<in>set (differing d). y = r1"
      "\<exists>(y, i)\<in>set (differing d). i = c0 div 2" "\<exists>(y, i)\<in>set (differing d). i = c1 div 2"
    using assms(3) by (auto simp: encloses_changes_def)
  show "even c0" "odd c1" by (fact e)+
  obtain y0 where y0: "(y0, c0 div 2) \<in> set (differing d)" using ex(3) by auto
  obtain y1 where y1: "(y1, c1 div 2) \<in> set (differing d)" using ex(4) by auto
  obtain i0 where i0: "(r0, i0) \<in> set (differing d)" using ex(1) by auto
  obtain i1 where i1: "(r1, i1) \<in> set (differing d)" using ex(2) by auto
  have "0 \<le> c0 div 2" using rg(3)[OF y0] .
  then have a: "0 \<le> c0" by simp
  have "c0 div 2 \<le> c1 div 2" using ins[OF y0] by simp
  then have b: "c0 \<le> c1" using e by presburger
  have "c1 div 2 < Dx (rect d) div 2" using rg(4)[OF y1] .
  then have c: "c1 < Dx (rect d)" using e f(3) by presburger
  have dd: "0 \<le> r0" using rg(1)[OF i0] .
  have ee: "r0 \<le> r1" using ins[OF i0] by simp
  have ff: "r1 < Dy (rect d)" using rg(2)[OF i1] .
  show "inside_frame d c0 c1 r0 r1" using a b c dd ee ff by (simp add: inside_frame_def)
qed

lemma send_changes_same:
  assumes "dev_ok d2" and "next_img d2 = Some nx" and "Pix nx = Pix (lastDm d2)"
  shows "send_changes d2 b = Some (None, d2, b)"
proof -
  have bo: "buffers_ok d2" using assms(1) by (simp add: dev_ok_def)
  obtain r where r: "calculateDiff d2 = Some r" "no_change r"
    using calculateDiff_scan[OF bo assms(2)] assms(3) by auto
  obtain c0 c1 r0 r1 where rr: "r = (c0, c1, r0, r1)" by (cases r)
  show ?thesis using r by (simp add: send_changes_def rr no_change_def)
qed

lemma send_changes_differ:
  assumes "dev_ok d2" and "next_img d2 = Some nx" and "Pix nx \<noteq> Pix (lastDm d2)"
  shows "\<exists>c0 c1 r0 r1 data.
           calculateDiff d2 = Some (c0, c1, r0, r1) \<and> inside_frame d2 c0 c1 r0 r1 \<and>
           extractRegion d2 c0 c1 r0 r1 = Some data \<and>
           send_changes d2 b =
             (case writeRect d2 c0 r0 (c1 - c0 + 1) (r1 - r0 + 1) data b of
                (Some e, b') \<Rightarrow> Some (Some e, d2, b')
              | (None, b') \<Rightarrow>
                  Some (None, d2\<lparr>buffer := Pix nx, lastDm := (lastDm d2)\<lparr>Pix := Pix nx\<rparr>\<rparr>, b'))"
proof -
  have bo: "buffers_ok d2" and fo: "frame_ok d2" using assms(1) by (simp_all add: dev_ok_def)
  have pk: "packed nx" "Rect nx = rect d2" "length (Pix (lastDm d2)) = length (Pix nx)"
    using bo by (simp_all add: buffers_ok_def assms(2))
  obtain r where r: "calculateDiff d2 = Some r" "\<not> no_change r" "encloses_changes d2 r"
    using calculateDiff_scan[OF bo assms(2)] assms(3) by auto
  obtain c0 c1 r0 r1 where rr: "r = (c0, c1, r0, r1)" by (cases r)
  note ins = encloses_inside[OF bo assms(2) r(3)[unfolded rr]]
  have ex: "extractRegion d2 c0 c1 r0 r1 =
      Some (concat (map (\<lambda>y. row_bytes (Pix nx) (Dx (rect d2) div 2) y (c0 div 2) (c1 div 2))
                        [r0 .. r1]))"
    using assms(2) pk(1,2) ins by (rule extractRegion_aligned)
  have lb: "length (Pix nx) = length (buffer d2)"
  proof -
    have "int (length (buffer d2)) = Dx (rect d2) div 2 * Dy (rect d2)"
      using frame_ok_facts(3,8)[OF fo] by (simp add: even_half_mult)
    then show ?thesis using buffers_ok_facts(5)[OF bo assms(2)] by simp
  qed
  have c1: "copy (buffer d2) (Pix nx) = Pix nx" using lb by (rule copy_same_length)
  have c2: "copy (Pix (lastDm d2)) (Pix nx) = Pix nx" using pk(3) by (intro copy_same_length) simp
  have nc: "\<not> c0 > c1" using r(2) by (simp add: rr no_change_def)
  have "send_changes d2 b =
             (case writeRect d2 c0 r0 (c1 - c0 + 1) (r1 - r0 + 1)
                     (concat (map (\<lambda>y. row_bytes (Pix nx) (Dx (rect d2) div 2) y (c0 div 2) (c1 div 2))
                        [r0 .. r1])) b of
                (Some e, b') \<Rightarrow> Some (Some e, d2, b')
              | (None, b') \<Rightarrow>
                  Some (None, d2\<lparr>buffer := Pix nx, lastDm := (lastDm d2)\<lparr>Pix := Pix nx\<rparr>\<rparr>, b'))"
    using nc by (simp add: send_changes_def r(1) rr ex assms(2) c1 c2 split: prod.splits option.splits)
  then show ?thesis using r(1) rr ins(1) ex by blast
qed

lemma invoke_result:
  assumes "invoke c b = (e, b')"
  shows "calls b' = calls b @ [c]" "e = None \<or> (\<exists>n. e = Some (ErrBus n))"
  using assms by (auto simp: invoke_def split: list.splits option.splits)

lemma sendCommands_result:
  assumes "sendCommands cmds b = (e, b')"
  shows "length (calls b) < length (calls b') \<and> (e = None \<or> (\<exists>n. e = Some (ErrBus n)))"
proof -
  obtain e1 b1 where i1: "invoke (DC_Out False) b = (e1, b1)" by (cases "invoke (DC_Out False) b")
  note r1 = invoke_result[OF i1]
  show ?thesis
  proof (cases e1)
    case None
    then have i2: "invoke (Tx cmds) b1 = (e, b')" using assms i1 by (simp add: sendCommands_def)
    show ?thesis using r1(1) invoke_result[OF i2] by simp
  next
    case (Some a)
    then have "e = e1" "b' = b1" using assms i1 by (simp_all add: sendCommands_def)
    then show ?thesis using r1 by simp
  qed
qed

lemma sendData_result:
  assumes "sendData data b = (e, b')"
  shows "length (calls b) < length (calls b') \<and> (e = None \<or> (\<exists>n. e = Some (ErrBus n)))"
proof -
  obtain e1 b1 where i1: "invoke (DC_Out True) b = (e1, b1)" by (cases "invoke (DC_Out True) b")
  note r1 = invoke_result[OF i1]
  show ?thesis
  proof (cases e1)
    case None
    then have i2: "invoke (Tx data) b1 = (e, b')" using assms i1 by (simp add: sendData_def)
    show ?thesis using r1(1) invoke_result[OF i2] by simp
  next
    case (Some a)
    then have "e = e1" "b' = b1" using assms i1 by (simp_all add: sendData_def)
    then show ?thesis using r1 by simp
  qed
qed

lemma writeRect_result:
  assumes "writeRect d x y w h pixels b = (e, b')"
  shows "length (calls b) < length (calls b') \<and> (e = None \<or> (\<exists>n. e = Some (ErrBus n)))"
proof -
  let ?cmds = "[0x15, word_of_int ((x + columnOffset d) sdiv 2),
                word_of_int ((x + w - 1 + columnOffset d) sdiv 2),
                0x75, word_of_int y, word_of_int (y + h - 1), 0x5C] :: byte list"
  obtain e1 b1 where s1: "sendCommands ?cmds b = (e1, b1)" by (cases "sendCommands ?cmds b")
  note r1 = sendCommands_result[OF s1]
  show ?thesis
  proof (cases e1)
    case None
    then have s2: "sendData pixels b1 = (e, b')"
      using assms s1 by (simp add: writeRect_def Let_def)
    show ?thesis using r1 sendData_result[OF s2] by simp
  next
    case (Some a)
    then have "e = e1" "b' = b1" using assms s1 by (simp_all add: writeRect_def Let_def)
    then show ?thesis using r1 by simp
  qed
qed

text \<open>Whether a send fails is decided by the next four answers of the bus.\<close>

lemma writeRect_outcome:
  "(first_fault 4 b = Some n \<longrightarrow> (\<exists>b'. writeRect d x y w h px b = (Some (ErrBus n), b'))) \<and>
   (first_fault 4 b = None \<longrightarrow> (\<exists>b'. writeRect d x y w h px b = (None, b')))"
proof -
  have t: "take 4 fs = (case fs of [] \<Rightarrow> [] | a # r1 \<Rightarrow> a # (case r1 of [] \<Rightarrow> [] | b # r2 \<Rightarrow>
             b # (case r2 of [] \<Rightarrow> [] | c # r3 \<Rightarrow> c # (case r3 of [] \<Rightarrow> [] | e # r4 \<Rightarrow> [e]))))"
    for fs :: "nat option list"
    by (simp add: numeral_eq_Suc split: list.splits)
  show ?thesis
    unfolding first_fault_def t writeRect_def Let_def sendCommands_def sendData_def invoke_def
    by (auto split: list.splits option.splits)
qed


lemma other_nibble_kept:
  "s \<le> 4 \<Longrightarrow> t \<le> 4 \<Longrightarrow> s \<noteq> t \<Longrightarrow> s = 0 \<or> s = 4 \<Longrightarrow> t = 0 \<or> t = 4 \<Longrightarrow>
   drop_bit t ((b AND NOT (push_bit s 0x0F)) OR push_bit s (v AND 0x0F)) AND 0x0F
     = drop_bit t b AND (0x0F::byte)"
  unfolding fifteen_mask by (rule bit_eqI) (auto simp: bit_simps)

lemma offset_unique:
  assumes "a * S + q = a' * S + q'" "0 \<le> q" "q < S" "0 \<le> q'" "q' < (S::int)"
  shows "a = a' \<and> q = q'"
proof -
  have S: "0 < S" using assms by simp
  have "a = (a * S + q) div S" using assms(2,3) S by (simp add: div_pos_pos_trivial)
  also have "\<dots> = (a' * S + q') div S" by (simp only: assms(1))
  also have "\<dots> = a'" using assms(4,5) S by (simp add: div_pos_pos_trivial)
  finally have "a = a'" .
  then show ?thesis using assms(1) by simp
qed

lemma pixOffset_inj:
  assumes "packed p" "In (Pt x y) (Rect p)" "In (Pt x' y') (Rect p)"
    and "pixOffset p x y = pixOffset p x' y'"
  shows "x = x' \<and> y = y'"
proof -
  define x0 where "x0 = X (Min_pt (Rect p))"
  define y0 where "y0 = Y (Min_pt (Rect p))"
  define S where "S = Stride p"
  have dx: "0 \<le> x - x0" "x - x0 < Dx (Rect p)" "0 \<le> x' - x0" "x' - x0 < Dx (Rect p)"
    using assms(2,3) by (auto simp: In_def Pt_def Dx_def x0_def)
  have ev: "even (Dx (Rect p))" and Sd: "S = Dx (Rect p) div 2"
    using assms(1) dx by (auto simp: packed_def smod2_eq_0_iff sdiv2_nonneg S_def)
  have q: "(x - x0) sdiv 2 = (x - x0) div 2" "(x' - x0) sdiv 2 = (x' - x0) div 2"
    using dx by (simp_all add: sdiv2_nonneg)
  have rng: "0 \<le> (x - x0) div 2" "(x - x0) div 2 < S" "0 \<le> (x' - x0) div 2" "(x' - x0) div 2 < S"
    using dx ev Sd by presburger+
  have off: "(y - y0) * S + (x - x0) div 2 = (y' - y0) * S + (x' - x0) div 2"
    and par: "even x = even x'"
    using assms(4) q unfolding pixOffset_def shift_of_x
    by (auto simp: x0_def y0_def S_def split: if_splits)
  have u: "y - y0 = y' - y0 \<and> (x - x0) div 2 = (x' - x0) div 2"
    using off rng by (intro offset_unique) auto
  have "x - x0 = x' - x0" using u par by presburger
  then show ?thesis using u by simp
qed

lemma Set_eq_SetGray4: "Set p x y c = SetGray4 p x y (toGray4 c)"
  by (simp add: Set_def SetGray4_def Let_def)

lemma shift_le_4: "snd (pixOffset p x y) \<le> 4" "snd (pixOffset p x y) = 0 \<or> snd (pixOffset p x y) = 4"
  unfolding pixOffset_def shift_of_x by auto

lemma SetGray4_written:
  assumes "packed p" "In (Pt x y) (Rect p)"
  shows "SetGray4 p x y g =
           Some (p\<lparr>Pix := (Pix p)[nat (fst (pixOffset p x y)) :=
                   ((Pix p ! nat (fst (pixOffset p x y))) AND NOT (push_bit (snd (pixOffset p x y)) 0x0F))
                     OR push_bit (snd (pixOffset p x y)) (gray_Y g AND 0x0F)]\<rparr>)"
  using assms(2) pixOffset_in_range[OF assms]
  by (cases "pixOffset p x y") (simp add: SetGray4_def index_def store_def)

lemma Gray4At_read:
  assumes "packed p" "In (Pt x y) (Rect p)"
  shows "Gray4At p x y =
           Some (Gray4 (drop_bit (snd (pixOffset p x y)) (Pix p ! nat (fst (pixOffset p x y))) AND 0x0F))"
  using assms(2) pixOffset_in_range[OF assms]
  by (cases "pixOffset p x y") (simp add: Gray4At_def index_def)

lemma pixOffset_Pix_update [simp]: "pixOffset (p\<lparr>Pix := xs\<rparr>) x y = pixOffset p x y"
  by (simp add: pixOffset_def)

lemma packed_Pix_update: "packed p \<Longrightarrow> length xs = length (Pix p) \<Longrightarrow> packed (p\<lparr>Pix := xs\<rparr>)"
  by (simp add: packed_def)


lemma Set_get_same:
  assumes "packed p" "In (Pt x y) (Rect p)" "Set p x y c = Some p'"
  shows "Gray4At p' x y = Some (Gray4 (gray_Y (toGray4 c) AND 0x0F))"
proof -
  let ?o = "nat (fst (pixOffset p x y))" and ?s = "snd (pixOffset p x y)"
  let ?b = "((Pix p ! ?o) AND NOT (push_bit ?s 0x0F)) OR push_bit ?s (gray_Y (toGray4 c) AND 0x0F)"
  have p': "p' = p\<lparr>Pix := (Pix p)[?o := ?b]\<rparr>"
    using assms(3) unfolding Set_eq_SetGray4 SetGray4_written[OF assms(1,2)] by simp
  have pk: "packed p'" unfolding p' using assms(1) by (intro packed_Pix_update) auto
  have inb: "In (Pt x y) (Rect p')" using assms(2) by (simp add: p')
  have lt: "?o < length (Pix p)" using pixOffset_in_range[OF assms(1,2)] by simp
  have "drop_bit ?s ?b AND 0x0F = gray_Y (toGray4 c) AND 0x0F"
    using shift_le_4(1) by (rule nibble_written)
  then show ?thesis
    unfolding Gray4At_read[OF pk inb] using lt by (simp add: p')
qed

lemma Set_get_other:
  assumes "packed p" "Set p x y c = Some p'" "In (Pt x' y') (Rect p)" "(x', y') \<noteq> (x, y)"
  shows "Gray4At p' x' y' = Gray4At p x' y'"
proof (cases "In (Pt x y) (Rect p)")
  case False
  then show ?thesis using assms(2) by (simp add: Set_def)
next
  case True
  let ?o = "nat (fst (pixOffset p x y))" and ?s = "snd (pixOffset p x y)"
  let ?o' = "nat (fst (pixOffset p x' y'))" and ?s' = "snd (pixOffset p x' y')"
  let ?b = "((Pix p ! ?o) AND NOT (push_bit ?s 0x0F)) OR push_bit ?s (gray_Y (toGray4 c) AND 0x0F)"
  have p': "p' = p\<lparr>Pix := (Pix p)[?o := ?b]\<rparr>"
    using assms(2) unfolding Set_eq_SetGray4 SetGray4_written[OF assms(1) True] by simp
  have pk: "packed p'" unfolding p' using assms(1) by (intro packed_Pix_update) auto
  have inb: "In (Pt x' y') (Rect p')" using assms(3) by (simp add: p')
  have lt: "?o < length (Pix p)" "?o' < length (Pix p)"
    using pixOffset_in_range[OF assms(1) True] pixOffset_in_range[OF assms(1,3)] by simp_all
  have nn: "0 \<le> fst (pixOffset p x y)" "0 \<le> fst (pixOffset p x' y')"
    using pixOffset_in_range[OF assms(1) True] pixOffset_in_range[OF assms(1,3)] by simp_all
  have ne: "pixOffset p x y \<noteq> pixOffset p x' y'"
    using pixOffset_inj[OF assms(1) True assms(3)] assms(4) by auto
  show ?thesis
  proof (cases "?o' = ?o")
    case False
    then show ?thesis
      unfolding Gray4At_read[OF pk inb] Gray4At_read[OF assms(1,3)] by (simp add: p')
  next
    case same: True
    then have "fst (pixOffset p x y) = fst (pixOffset p x' y')" using nn by simp
    then have sne: "?s \<noteq> ?s'" using ne by (simp add: prod_eq_iff)
    have "drop_bit ?s' ?b AND 0x0F = drop_bit ?s' (Pix p ! ?o) AND 0x0F"
      using shift_le_4[of p x y] shift_le_4[of p x' y'] sne by (intro other_nibble_kept) auto
    then show ?thesis
      unfolding Gray4At_read[OF pk inb] Gray4At_read[OF assms(1,3)] using lt same by (simp add: p')
  qed
qed

lemma for_each_map: "for_each f (map g xs) s = for_each (\<lambda>x. f (g x)) xs s"
  by (induction xs arbitrary: s) (auto split: option.splits)

lemma for_each_nested:
  "for_each (\<lambda>y. for_each (f y) xs) ys s =
   for_each (\<lambda>(y, x). f y x) (List.product ys xs) s"
proof (induction ys arbitrary: s)
  case Nil
  then show ?case by simp
next
  case (Cons y ys)
  show ?case
    by (simp add: for_each_append for_each_map Cons.IH split: option.splits)
qed

lemma draw_pixels_shape:
  assumes "for_each (\<lambda>(y, x). draw_pixel src r sp y x) L p = Some q"
  shows "same_shape p q"
proof (rule for_each_invariant[where P = "same_shape p", OF assms])
  show "same_shape p p" by (simp add: same_shape_def)
next
  fix yx t t'
  assume "same_shape p t" "(case yx of (y, x) \<Rightarrow> draw_pixel src r sp y x) t = Some t'"
  then show "same_shape p t'" by (cases yx) (auto intro: draw_pixel_shape)
qed

lemma draw_pixels_keep:
  assumes "packed p" "for_each (\<lambda>(y, x). draw_pixel src r sp y x) L p = Some q"
    and "(y, x) \<notin> set L" "In (Pt x y) (Rect p)"
  shows "Gray4At q x y = Gray4At p x y"
  using assms
proof (induction L arbitrary: p)
  case Nil
  then show ?case by simp
next
  case (Cons a L)
  obtain y' x' where a: "a = (y', x')" by (cases a)
  obtain p1 where p1: "draw_pixel src r sp y' x' p = Some p1"
      "for_each (\<lambda>(y, x). draw_pixel src r sp y x) L p1 = Some q"
    using Cons.prems(2) by (auto simp: a split: option.splits)
  obtain c where c: "Set p x' y' c = Some p1"
    using p1(1) by (auto simp: draw_pixel_def split: option.splits)
  have sh: "same_shape p p1" using c by (rule Set_shape)
  have pk1: "packed p1" using sh Cons.prems(1) by (rule same_shape_packed)
  have in1: "In (Pt x y) (Rect p1)" using sh Cons.prems(4) by (simp add: same_shape_def)
  have ne: "(x, y) \<noteq> (x', y')" using Cons.prems(3) by (auto simp: a)
  have "Gray4At q x y = Gray4At p1 x y"
    using pk1 p1(2) _ in1 by (rule Cons.IH) (use Cons.prems(3) in simp)
  also have "\<dots> = Gray4At p x y"
    using Cons.prems(1) c Cons.prems(4) ne by (rule Set_get_other)
  finally show ?case .
qed

lemma draw_pixels_painted:
  assumes "packed p" "for_each (\<lambda>(y, x). draw_pixel src r sp y x) L p = Some q"
  shows "\<forall>yx\<in>set L. painted src r sp q yx"
  using assms
proof (induction L arbitrary: p)
  case Nil
  then show ?case by simp
next
  case (Cons a L)
  obtain y' x' where a: "a = (y', x')" by (cases a)
  obtain p1 where p1: "draw_pixel src r sp y' x' p = Some p1"
      "for_each (\<lambda>(y, x). draw_pixel src r sp y x) L p1 = Some q"
    using Cons.prems(2) by (auto simp: a split: option.splits)
  obtain c where c: "At src (X sp + x' - X (Min_pt r)) (Y sp + y' - Y (Min_pt r)) = Some c"
      "Set p x' y' c = Some p1"
    using p1(1) by (auto simp: draw_pixel_def split: option.splits)
  have sh: "same_shape p p1" using c(2) by (rule Set_shape)
  have pk1: "packed p1" using sh Cons.prems(1) by (rule same_shape_packed)
  have sh2: "same_shape p1 q" using p1(2) by (rule draw_pixels_shape)
  have ih: "\<forall>yx\<in>set L. painted src r sp q yx" using pk1 p1(2) by (rule Cons.IH)
  have "painted src r sp q (y', x')"
  proof (cases "(y', x') \<in> set L")
    case True
    then show ?thesis using ih by blast
  next
    case False
    show ?thesis
      unfolding painted_def prod.case c(1) option.case
    proof
      assume "In (Pt x' y') (Rect q)"
      then have inp: "In (Pt x' y') (Rect p)" "In (Pt x' y') (Rect p1)"
        using sh sh2 by (simp_all add: same_shape_def)
      have "Gray4At q x' y' = Gray4At p1 x' y'"
        using pk1 p1(2) False inp(2) by (rule draw_pixels_keep)
      also have "\<dots> = Some (Gray4 (gray_Y (toGray4 c) AND 0x0F))"
        using Cons.prems(1) inp(1) c(2) by (rule Set_get_same)
      finally show "Gray4At q x' y' = Some (Gray4 (gray_Y (toGray4 c) AND 0x0F))" .
    qed
  qed
  then show ?case using ih by (simp add: a)
qed



lemma render_parts:
  assumes "dev_ok d" and "render d r src sp = Some d2"
  shows "\<exists>d1 n1 nx. ensure_next d = Some d1 \<and> next_img d1 = Some n1 \<and> packed n1 \<and>
           draw_Draw n1 r src sp = Some nx \<and> d2 = d1\<lparr>next_img := Some nx\<rparr>"
proof -
  obtain d1 n1 where e: "ensure_next d = Some d1" "dev_ok d1" "next_img d1 = Some n1"
    using ensure_next_ok[OF assms(1)] by blast
  have pk: "packed n1" using e(2,3) by (simp add: dev_ok_def buffers_ok_def)
  obtain nx where "draw_Draw n1 r src sp = Some nx" "d2 = d1\<lparr>next_img := Some nx\<rparr>"
    using assms(2) by (auto simp: render_def e(1,3) split: option.splits)
  then show ?thesis using e pk by blast
qed



lemma Draw_slow_path:
  assumes "\<not> halted d" "\<not> Empty (Intersect dst (rect d))"
    and "full_frame_source d (Intersect dst (rect d)) src sp = None"
  shows "Draw d dst src sp b =
           (case render d (Intersect dst (rect d)) src sp of
              None \<Rightarrow> None
            | Some d2 \<Rightarrow> send_changes d2 b)"
  using assms by (simp add: Draw_def Let_def)

text \<open>What a call of \<open>Draw\<close> on the slow path that returns has done.\<close>

lemma Draw_slow_outcome:
  assumes "dev_ok d" "\<not> halted d" "\<not> Empty (Intersect dst (rect d))"
    and "full_frame_source d (Intersect dst (rect d)) src sp = None"
    and "Draw d dst src sp b = Some (res, d', b')"
  shows "\<exists>d2 nx. render d (Intersect dst (rect d)) src sp = Some d2 \<and> dev_ok d2 \<and>
           next_img d2 = Some nx \<and>
           ((Pix nx = Pix (lastDm d2) \<and> res = None \<and> d' = d2 \<and> b' = b) \<or>
            (Pix nx \<noteq> Pix (lastDm d2) \<and> b' \<noteq> b \<and>
             ((\<exists>n. res = Some (ErrBus n)) \<and> d' = d2 \<or>
              res = None \<and>
              d' = d2\<lparr>buffer := Pix nx, lastDm := (lastDm d2)\<lparr>Pix := Pix nx\<rparr>\<rparr>)))"
proof -
  let ?r = "Intersect dst (rect d)"
  obtain d2 where rd: "render d ?r src sp = Some d2" and sc: "send_changes d2 b = Some (res, d', b')"
    using assms(5) unfolding Draw_slow_path[OF assms(2,3,4)] by (auto split: option.splits)
  note ro = render_ok[OF assms(1) rd]
  obtain nx where nx: "next_img d2 = Some nx" using ro by blast
  have ok2: "dev_ok d2" using ro by blast
  show ?thesis
  proof (cases "Pix nx = Pix (lastDm d2)")
    case True
    then show ?thesis using rd ok2 nx sc send_changes_same[OF ok2 nx True, of b] by auto
  next
    case False
    obtain c0 c1 r0 r1 data where
      w: "send_changes d2 b =
             (case writeRect d2 c0 r0 (c1 - c0 + 1) (r1 - r0 + 1) data b of
                (Some e, b') \<Rightarrow> Some (Some e, d2, b')
              | (None, b') \<Rightarrow>
                  Some (None, d2\<lparr>buffer := Pix nx, lastDm := (lastDm d2)\<lparr>Pix := Pix nx\<rparr>\<rparr>, b'))"
      using send_changes_differ[OF ok2 nx False, of b] by blast
    obtain e1 b1 where wr: "writeRect d2 c0 r0 (c1 - c0 + 1) (r1 - r0 + 1) data b = (e1, b1)"
      by (cases "writeRect d2 c0 r0 (c1 - c0 + 1) (r1 - r0 + 1) data b")
    note wres = writeRect_result[OF wr]
    have "b1 \<noteq> b" using wres by auto
    then show ?thesis
      using rd ok2 nx False sc wres unfolding w wr by (cases e1) auto
  qed
qed

lemma for_each_total:
  assumes "P s" and "\<And>x t. P t \<Longrightarrow> \<exists>t'. f x t = Some t' \<and> P t'"
  shows "\<exists>s'. for_each f xs s = Some s' \<and> P s'"
  using assms(1)
proof (induction xs arbitrary: s)
  case Nil
  then show ?case by simp
next
  case (Cons x xs)
  obtain t where t: "f x s = Some t" "P t" using assms(2)[OF Cons.prems] by blast
  show ?case using Cons.IH[OF t(2)] t(1) by simp
qed

lemma At_total: "well_formed src \<Longrightarrow> \<exists>c. At src x y = Some c"
proof (cases src)
  case (Nibble_image s)
  assume "well_formed src"
  then have pk: "packed s" by (simp add: well_formed_def Nibble_image)
  show ?thesis
  proof (cases "In (Pt x y) (Rect s)")
    case True
    then show ?thesis using Gray4At_read[OF pk True] by (simp add: Nibble_image)
  next
    case False
    then show ?thesis by (simp add: Nibble_image Gray4At_def)
  qed
next
  case (Other_image r f)
  then show ?thesis by simp
qed

lemma Set_total: "packed t \<Longrightarrow> \<exists>t'. Set t x y c = Some t' \<and> packed t'"
proof (cases "In (Pt x y) (Rect t)")
  case True
  assume pk: "packed t"
  show ?thesis
    unfolding Set_eq_SetGray4 SetGray4_written[OF pk True]
    using pk by (auto intro: packed_Pix_update)
next
  case False
  assume "packed t"
  then show ?thesis using False by (simp add: Set_def)
qed

lemma draw_Draw_total:
  assumes "packed p" "well_formed src"
  shows "\<exists>q. draw_Draw p r src sp = Some q"
proof -
  obtain r' sp' where c: "clip (Rect p) r (Bounds src) sp = (r', sp')"
    by (cases "clip (Rect p) r (Bounds src) sp")
  have px: "\<exists>t'. draw_pixel src r' sp' y x t = Some t' \<and> packed t'" if "packed t" for x y t
    using At_total[OF assms(2)] Set_total[OF that] by (simp add: draw_pixel_def) (metis option.simps(5))
  have row: "\<exists>t'. draw_row src r' sp' y t = Some t' \<and> packed t'" if "packed t" for y t
    unfolding draw_row_def using that px by (intro for_each_total[where P = packed]) auto
  have "\<exists>q. for_each (draw_row src r' sp') [Y (Min_pt r') .. Y (Max_pt r') - 1] p = Some q \<and> packed q"
    using assms(1) row by (intro for_each_total[where P = packed]) auto
  then show ?thesis by (auto simp: draw_Draw_def c)
qed

lemma render_total:
  assumes "dev_ok d" "well_formed src"
  shows "\<exists>d2. render d r src sp = Some d2"
proof -
  obtain d1 n1 where e: "ensure_next d = Some d1" "dev_ok d1" "next_img d1 = Some n1"
    using ensure_next_ok[OF assms(1)] by blast
  have "packed n1" using e(2,3) by (simp add: dev_ok_def buffers_ok_def)
  then obtain q where "draw_Draw n1 r src sp = Some q" using draw_Draw_total assms(2) by blast
  then show ?thesis by (simp add: render_def e)
qed

lemma send_changes_total:
  assumes "dev_ok d2" "next_img d2 = Some nx"
  shows "\<exists>res. send_changes d2 b = Some res"
proof (cases "Pix nx = Pix (lastDm d2)")
  case True
  then show ?thesis using send_changes_same[OF assms True] by simp
next
  case False
  obtain c0 c1 r0 r1 data where
    w: "send_changes d2 b =
          (case writeRect d2 c0 r0 (c1 - c0 + 1) (r1 - r0 + 1) data b of
             (Some e, b') \<Rightarrow> Some (Some e, d2, b')
           | (None, b') \<Rightarrow>
               Some (None, d2\<lparr>buffer := Pix nx, lastDm := (lastDm d2)\<lparr>Pix := Pix nx\<rparr>\<rparr>, b'))"
    using send_changes_differ[OF assms False, of b] by blast
  obtain e1 b1 where "writeRect d2 c0 r0 (c1 - c0 + 1) (r1 - r0 + 1) data b = (e1, b1)"
    by (cases "writeRect d2 c0 r0 (c1 - c0 + 1) (r1 - r0 + 1) data b")
  then show ?thesis unfolding w by (cases e1) simp_all
qed

text \<open>With a well-formed source, \<open>Draw\<close> on a well-formed device returns: nothing panics.\<close>

lemma Draw_returns:
  assumes "dev_ok d" "well_formed src"
  shows "\<exists>res. Draw d dst src sp b = Some res"
proof -
  let ?r = "Intersect dst (rect d)"
  consider "halted d" | "\<not> halted d" "Empty ?r"
    | pix where "\<not> halted d" "\<not> Empty ?r" "full_frame_source d ?r src sp = Some pix"
    | "\<not> halted d" "\<not> Empty ?r" "full_frame_source d ?r src sp = None"
    by (cases "full_frame_source d ?r src sp") auto
  then show ?thesis
  proof cases
    case 1
    then show ?thesis by (simp add: Draw_def)
  next
    case 2
    then show ?thesis by (simp add: Draw_def)
  next
    case 3
    then show ?thesis by (simp add: Draw_def Let_def split: prod.splits)
  next
    case 4
    obtain d2 where rd: "render d ?r src sp = Some d2" using render_total[OF assms] by blast
    obtain nx where "dev_ok d2" "next_img d2 = Some nx" using render_ok[OF assms(1) rd] by blast
    then show ?thesis
      using send_changes_total[of d2 nx b] by (simp add: Draw_slow_path[OF 4] rd)
  qed
qed

lemma dev_ok_commit:
  assumes "dev_ok d2" "next_img d2 = Some nx"
  shows "dev_ok (d2\<lparr>buffer := Pix nx, lastDm := (lastDm d2)\<lparr>Pix := Pix nx\<rparr>\<rparr>)"
proof -
  have fo: "frame_ok d2" and bo: "buffers_ok d2" using assms(1) by (simp_all add: dev_ok_def)
  have "length (Pix nx) = length (buffer d2)"
    using frame_ok_facts(3,8)[OF fo] buffers_ok_facts(5)[OF bo assms(2)]
    by (simp add: even_half_mult)
  then show ?thesis
    using fo bo assms(2) by (auto simp: dev_ok_def frame_ok_def buffers_ok_def)
qed

text \<open>Every device \<open>NewSPI\<close> returns is well-formed, and the operations keep it so.\<close>

lemma NewSPI_dev_ok:
  assumes "NewSPI opts b = Some ((Some d, e), b')"
  shows "dev_ok d \<and> \<not> halted d \<and> next_img d = None \<and> e = None"
proof -
  define o1 where "o1 = (case opts of None \<Rightarrow> default_Opts | Some o1 \<Rightarrow> o1)"
  have v: "0 < W o1" "W o1 \<le> 480" "W o1 smod 2 = 0" "0 < H o1" "H o1 \<le> 128"
    using assms unfolding NewSPI_def o1_def[symmetric] Let_def
    by (auto split: if_splits)
  have "0 \<le> W o1 * H o1" using v by (simp add: zero_le_mult_iff)
  then have nn: "\<not> W o1 * H o1 sdiv 2 < 0"
    by (simp add: sdiv2_nonneg pos_imp_zdiv_neg_iff)
  have d: "d = \<lparr>rst = RST o1, rect = Rect_of 0 0 (W o1) (H o1),
                columnOffset = (480 - W o1) sdiv 2,
                buffer = replicate (nat (W o1 * H o1 sdiv 2)) 0,
                next_img = None, lastDm = \<lparr>Pix = [], Stride = 0, Rect = ZR\<rparr>,
                minCol = 0, maxCol = W o1 - 1, minRow = 0, maxRow = H o1 - 1, halted = False\<rparr>"
    and e: "e = None"
    using assms v nn unfolding NewSPI_def o1_def[symmetric] Let_def
    by (auto simp: make_bytes_def split: if_splits prod.splits option.splits)
  have dims: "Dx (Rect_of 0 0 (W o1) (H o1)) = W o1" "Dy (Rect_of 0 0 (W o1) (H o1)) = H o1"
    using v Rect_of_dims[of "W o1" "H o1"] by simp_all
  have "frame_ok d" using v nn by (simp add: frame_ok_def d dims)
  moreover have "buffers_ok d" by (simp add: buffers_ok_def d)
  ultimately show ?thesis using e by (simp add: dev_ok_def d)
qed

lemma Write_dev_ok:
  assumes "dev_ok d" "Write d pixels b = (res, d', b')"
  shows "dev_ok d'"
  using assms
  by (auto simp: Write_def dev_ok_def frame_ok_def Let_def buffers_ok_def copy_same_length
      split: if_splits prod.splits option.splits)

lemma Halt_dev_ok:
  assumes "dev_ok d" "Halt d b = (res, d', b')"
  shows "dev_ok d'"
  using assms
  by (auto simp: Halt_def dev_ok_def frame_ok_def Let_def buffers_ok_def
      split: prod.splits option.splits)

lemma Draw_dev_ok:
  assumes "dev_ok d" "Draw d dst src sp b = Some (res, d', b')"
  shows "dev_ok d'"
proof -
  let ?r = "Intersect dst (rect d)"
  consider "halted d \<or> Empty ?r \<or> full_frame_source d ?r src sp \<noteq> None"
    | "\<not> halted d" "\<not> Empty ?r" "full_frame_source d ?r src sp = None"
    by auto
  then show ?thesis
  proof cases
    case 1
    then have "d' = d" using assms(2) by (auto simp: Draw_def Let_def split: prod.splits if_splits)
    then show ?thesis using assms(1) by simp
  next
    case 2
    obtain d2 nx where o: "dev_ok d2" "next_img d2 = Some nx"
        "d' = d2 \<or> d' = d2\<lparr>buffer := Pix nx, lastDm := (lastDm d2)\<lparr>Pix := Pix nx\<rparr>\<rparr>"
      using Draw_slow_outcome[OF assms(1) 2 assms(2)] by blast
    then show ?thesis using dev_ok_commit[OF o(1,2)] by auto
  qed
qed

subsection \<open>What \<open>Draw\<close> and \<open>Write\<close> do to the committed frame\<close>

lemma draw_Draw_rendered:
  assumes "packed p" "draw_Draw p r src sp = Some q"
  shows "rendered_from src r sp p q"
proof -
  have sh: "same_shape p q" using assms(2) by (rule draw_Draw_shape)
  obtain r' sp' where c: "clip (Rect p) r (Bounds src) sp = (r', sp')"
    by (cases "clip (Rect p) r (Bounds src) sp")
  have px: "if In (Pt x y) r' then painted src r' sp' q (y, x)
            else Gray4At q x y = Gray4At p x y"
    if xy: "In (Pt x y) (Rect p)" for x y
  proof (cases "Empty r'")
    case True
    then have "q = p" using assms(2) by (simp add: draw_Draw_def c)
    moreover have "\<not> In (Pt x y) r'" using True by (auto simp: Empty_def In_def Pt_def)
    ultimately show ?thesis by simp
  next
    case False
    let ?L = "List.product [Y (Min_pt r') .. Y (Max_pt r') - 1] [X (Min_pt r') .. X (Max_pt r') - 1]"
    have flat: "for_each (draw_row src r' sp') [Y (Min_pt r') .. Y (Max_pt r') - 1] s =
                for_each (\<lambda>(y, x). draw_pixel src r' sp' y x) ?L s" for s
      unfolding draw_row_def by (rule for_each_nested)
    have one: "for_each (\<lambda>(y, x). draw_pixel src r' sp' y x) ?L p = Some q"
      using assms(2) False by (simp add: draw_Draw_def c flat)
    have mem: "(y, x) \<in> set ?L \<longleftrightarrow> In (Pt x y) r'"
      by (auto simp: In_def Pt_def)
    show ?thesis
    proof (cases "In (Pt x y) r'")
      case True
      then show ?thesis using draw_pixels_painted[OF assms(1) one] mem by auto
    next
      case out: False
      then have "(y, x) \<notin> set ?L" using mem by simp
      then show ?thesis using draw_pixels_keep[OF assms(1) one _ xy] out by simp
    qed
  qed
  have "In (Pt x y) (Rect p)"
    if "y \<in> set [Y (Min_pt (Rect p)) .. Y (Max_pt (Rect p)) - 1]"
       "x \<in> set [X (Min_pt (Rect p)) .. X (Max_pt (Rect p)) - 1]" for x y
    using that by (auto simp: In_def Pt_def)
  then show ?thesis
    using sh px unfolding rendered_from_def c same_shape_def by simp
qed

lemma ensure_next_prior:
  assumes "ensure_next d = Some d1" "next_img d1 = Some n1"
  shows "case next_img d of Some n0 \<Rightarrow> n1 = n0 | None \<Rightarrow> NewHorizontalNibble (rect d) = Some n1"
  using assms by (auto simp: ensure_next_def split: option.splits)

lemma render_rendered:
  assumes "dev_ok d" "render d r src sp = Some d2" "next_img d2 = Some nx"
  shows "\<exists>p. (case next_img d of Some n0 \<Rightarrow> p = n0
               | None \<Rightarrow> NewHorizontalNibble (rect d) = Some p) \<and>
              rendered_from src r sp p nx"
proof -
  obtain d1 n1 nx' where p: "ensure_next d = Some d1" "next_img d1 = Some n1" "packed n1"
      "draw_Draw n1 r src sp = Some nx'" "d2 = d1\<lparr>next_img := Some nx'\<rparr>"
    using render_parts[OF assms(1,2)] by blast
  then have "nx' = nx" using assms(3) by simp
  then have "rendered_from src r sp n1 nx" using draw_Draw_rendered[OF p(3,4)] by simp
  then show ?thesis using ensure_next_prior[OF p(1,2)] by (auto split: option.splits)
qed


lemma render_state:
  assumes "dev_ok d" "render d r src sp = Some d2" "next_img d2 = Some nx"
  shows "d2 = d\<lparr>next_img := Some nx, lastDm := lastDm d2\<rparr>"
proof -
  obtain d1 n1 where e: "ensure_next d = Some d1" "next_img d1 = Some n1"
      "d1 = d\<lparr>next_img := Some n1, lastDm := lastDm d1\<rparr>"
    using ensure_next_ok[OF assms(1)] by blast
  obtain L where d1: "d1 = d\<lparr>next_img := Some n1, lastDm := L\<rparr>" using e(3) by blast
  obtain nx' where d2: "d2 = d1\<lparr>next_img := Some nx'\<rparr>"
    using assms(2) by (auto simp: render_def e(1,2) split: option.splits)
  have "nx' = nx" using assms(3) by (simp add: d2)
  then show ?thesis by (simp add: d2 d1)
qed

lemma render_returns:
  assumes "dev_ok d" "well_formed src"
  shows "\<exists>d2 nx rc. render d r src sp = Some d2 \<and> next_img d2 = Some nx \<and>
           calculateDiff d2 = Some rc"
proof -
  obtain d2 where r: "render d r src sp = Some d2" using render_total[OF assms] by blast
  note ro = render_ok[OF assms(1) r]
  then obtain nx where nx: "next_img d2 = Some nx" by blast
  have "buffers_ok d2" using ro by (simp add: dev_ok_def)
  then obtain rc where "calculateDiff d2 = Some rc" using calculateDiff_scan[OF _ nx] by blast
  then show ?thesis using r nx by blast
qed

lemma send_changes_outcome:
  assumes "dev_ok d2" and "next_img d2 = Some nx"
    and "calculateDiff d2 = Some rc" and "\<not> no_change rc"
  shows "case first_fault 4 b of
           Some n \<Rightarrow> \<exists>b'. send_changes d2 b = Some (Some (ErrBus n), d2, b')
         | None \<Rightarrow> \<exists>b'. send_changes d2 b =
               Some (None, d2\<lparr>buffer := Pix nx, lastDm := (lastDm d2)\<lparr>Pix := Pix nx\<rparr>\<rparr>, b')"
proof -
  have bo: "buffers_ok d2" using assms(1) by (simp add: dev_ok_def)
  have ne: "Pix nx \<noteq> Pix (lastDm d2)"
    using calculateDiff_scan[OF bo assms(2)] assms(3,4) by auto
  obtain c0 c1 r0 r1 data where
    w: "send_changes d2 b =
          (case writeRect d2 c0 r0 (c1 - c0 + 1) (r1 - r0 + 1) data b of
             (Some e, b') \<Rightarrow> Some (Some e, d2, b')
           | (None, b') \<Rightarrow>
               Some (None, d2\<lparr>buffer := Pix nx, lastDm := (lastDm d2)\<lparr>Pix := Pix nx\<rparr>\<rparr>, b'))"
    using send_changes_differ[OF assms(1,2) ne, of b] by blast
  note o = writeRect_outcome[of b _ d2 c0 r0 "c1 - c0 + 1" "r1 - r0 + 1" data]
  show ?thesis
  proof (cases "first_fault 4 b")
    case None
    then obtain b' where "writeRect d2 c0 r0 (c1 - c0 + 1) (r1 - r0 + 1) data b = (None, b')"
      using o by blast
    then show ?thesis by (simp add: None w)
  next
    case (Some n)
    then obtain b' where "writeRect d2 c0 r0 (c1 - c0 + 1) (r1 - r0 + 1) data b = (Some (ErrBus n), b')"
      using o by blast
    then show ?thesis by (simp add: Some w)
  qed
qed

lemma writeFullFrame_outcome:
  "case first_fault 4 b of
     Some n \<Rightarrow> \<exists>b'. writeFullFrame d pixels b = (Some (ErrBus n), b')
   | None \<Rightarrow> \<exists>b'. writeFullFrame d pixels b = (None, b')"
  using writeRect_outcome[of b _ d 0 0 "Dx (rect d)" "Dy (rect d)" pixels]
  by (auto simp: writeFullFrame_def split: option.splits)

lemma Write_outcome:
  assumes "\<not> halted d" "length pixels = length (buffer d)"
  shows "case first_fault 4 b of
           Some n \<Rightarrow> \<exists>b'. Write d pixels b = ((0, Some (ErrBus n)), d, b')
         | None \<Rightarrow> \<exists>b'. Write d pixels b =
               ((int (length pixels), None), d\<lparr>buffer := pixels\<rparr>, b')"
proof (cases "first_fault 4 b")
  case None
  then obtain b' where "writeFullFrame d pixels b = (None, b')"
    using writeFullFrame_outcome[where b = b and d = d and pixels = pixels] by auto
  then show ?thesis using assms by (simp add: None Write_def copy_same_length)
next
  case (Some n)
  then obtain b' where "writeFullFrame d pixels b = (Some (ErrBus n), b')"
    using writeFullFrame_outcome[where b = b and d = d and pixels = pixels] by auto
  then show ?thesis using assms by (simp add: Some Write_def)
qed

lemma Draw_slow_commit:
  assumes "dev_ok d" "\<not> halted d" "\<not> Empty (Intersect dst (rect d))"
    and "full_frame_source d (Intersect dst (rect d)) src sp = None"
    and "render d (Intersect dst (rect d)) src sp = Some d2" "next_img d2 = Some nx"
    and "calculateDiff d2 = Some rc" "\<not> no_change rc"
  shows "case first_fault 4 b of
           Some n \<Rightarrow> \<exists>b'. Draw d dst src sp b = Some (Some (ErrBus n), d2, b')
         | None \<Rightarrow> \<exists>b'. Draw d dst src sp b =
               Some (None, d2\<lparr>buffer := Pix nx, lastDm := (lastDm d2)\<lparr>Pix := Pix nx\<rparr>\<rparr>, b')"
proof -
  have ok2: "dev_ok d2" using render_ok[OF assms(1,5)] by blast
  have dr: "Draw d dst src sp b = send_changes d2 b"
    by (simp add: Draw_slow_path[OF assms(2,3,4)] assms(5))
  show ?thesis using send_changes_outcome[OF ok2 assms(6,7,8), of b] unfolding dr .
qed

lemma full_frame_source_nonempty:
  assumes "dev_ok d" "full_frame_source d r src sp = Some pix"
  shows "\<not> Empty r"
proof -
  have fo: "frame_ok d" using assms(1) by (simp add: dev_ok_def)
  have "r = rect d" using assms(2) by (cases src) (auto split: if_splits)
  moreover have "\<not> Empty (Rect_of 0 0 (Dx (rect d)) (Dy (rect d)))"
    using frame_ok_facts(1,4)[OF fo] by (simp add: Empty_def Rect_of_def Pt_def)
  ultimately show ?thesis using frame_ok_facts(6)[OF fo] by simp
qed

lemma Draw_fast_failure:
  assumes "\<not> halted d" "\<not> Empty (Intersect dst (rect d))"
    and "full_frame_source d (Intersect dst (rect d)) src sp = Some pix"
    and "first_fault 4 b = Some n"
  shows "\<exists>b'. Draw d dst src sp b = Some (Some (ErrBus n), d, b')"
proof -
  obtain b' where "writeFullFrame d pix b = (Some (ErrBus n), b')"
    using writeFullFrame_outcome[where b = b and d = d and pixels = pix] assms(4) by auto
  then show ?thesis using assms(1,2,3) by (simp add: Draw_def Let_def)
qed





lemma NewSPI_in_sync:
  assumes "NewSPI opts b = Some ((Some d, e), b')"
  shows "in_sync d"
  using NewSPI_dev_ok[OF assms] by (simp add: in_sync_def)

lemma Write_in_sync:
  assumes "next_img d = None" "Write d pixels b = (res, d', b')"
  shows "in_sync d'"
  using assms
  by (auto simp: Write_def in_sync_def Let_def split: if_splits prod.splits option.splits)


text \<open>
  Claim C3, amended. On a well-formed device that is not halted. \<open>Write\<close> with a
  buffer of the right length: if the send fails, it returns the fault of the bus and the
  device as it was; if the send succeeds, it returns the device with \<open>buffer\<close> a copy
  of the pixels. \<open>Draw\<close> off the fast path, when the scan reports a change: the
  double buffer \<open>nx\<close> is the previous double buffer (a zero image at the first
  allocation) with the source drawn into the destination; the device \<open>d2\<close> that goes
  to the send is the device as it was but for the double buffer and, at its first
  allocation, \<open>lastDm\<close>, a copy of \<open>buffer\<close>; if the send fails, \<open>Draw\<close> returns
  the fault of the bus and \<open>d2\<close>, so \<open>buffer\<close> and \<open>lastDm\<close> are not touched; if
  the send succeeds, \<open>Draw\<close> returns nil and \<open>d2\<close> with \<open>buffer\<close> and
  \<open>lastDm.Pix\<close> copies of the double buffer. Off the fast path rendering and scan
  return for every well-formed source. \<open>Draw\<close> on the fast path: if the send fails, it
  returns the fault of the bus and the device as it was.
\<close>

theorem commit_keeps_or_replaces:
  assumes "dev_ok d" and "\<not> halted d"
  shows "(length pixels = length (buffer d) \<longrightarrow>
            (case first_fault 4 b of
               Some n \<Rightarrow> \<exists>b'. Write d pixels b = ((0, Some (ErrBus n)), d, b')
             | None \<Rightarrow> \<exists>b'. Write d pixels b =
                   ((int (length pixels), None), d\<lparr>buffer := pixels\<rparr>, b'))) \<and>
         (\<not> Empty (Intersect dst (rect d)) \<and>
          full_frame_source d (Intersect dst (rect d)) src sp = None \<and>
          render d (Intersect dst (rect d)) src sp = Some d2 \<and>
          next_img d2 = Some nx \<and> calculateDiff d2 = Some rc \<and> \<not> no_change rc \<longrightarrow>
            (\<exists>p. (case next_img d of
                    Some n0 \<Rightarrow> p = n0
                  | None \<Rightarrow> NewHorizontalNibble (rect d) = Some p) \<and>
                 rendered_from src (Intersect dst (rect d)) sp p nx) \<and>
            d2 = d\<lparr>next_img := Some nx, lastDm := lastDm d2\<rparr> \<and>
            (case next_img d of
               Some n0 \<Rightarrow> lastDm d2 = lastDm d
             | None \<Rightarrow> Pix (lastDm d2) = buffer d) \<and>
            (case first_fault 4 b of
               Some n \<Rightarrow> \<exists>b'. Draw d dst src sp b = Some (Some (ErrBus n), d2, b')
             | None \<Rightarrow> \<exists>b'. Draw d dst src sp b =
                   Some (None, d2\<lparr>buffer := Pix nx, lastDm := (lastDm d2)\<lparr>Pix := Pix nx\<rparr>\<rparr>,
                         b'))) \<and>
         (full_frame_source d (Intersect dst (rect d)) src sp = None \<and> well_formed src \<longrightarrow>
            (\<exists>d2 nx rc. render d (Intersect dst (rect d)) src sp = Some d2 \<and>
                         next_img d2 = Some nx \<and> calculateDiff d2 = Some rc)) \<and>
         (full_frame_source d (Intersect dst (rect d)) src sp = Some pix \<and>
          first_fault 4 b = Some n \<longrightarrow>
            (\<exists>b'. Draw d dst src sp b = Some (Some (ErrBus n), d, b')))"
proof -
  let ?r = "Intersect dst (rect d)"
  have W: "case first_fault 4 b of
               Some n \<Rightarrow> \<exists>b'. Write d pixels b = ((0, Some (ErrBus n)), d, b')
             | None \<Rightarrow> \<exists>b'. Write d pixels b =
                   ((int (length pixels), None), d\<lparr>buffer := pixels\<rparr>, b')"
    if "length pixels = length (buffer d)"
    using assms(2) that by (rule Write_outcome)
  have D: "(\<exists>p. (case next_img d of
                    Some n0 \<Rightarrow> p = n0
                  | None \<Rightarrow> NewHorizontalNibble (rect d) = Some p) \<and>
                 rendered_from src ?r sp p nx) \<and>
            d2 = d\<lparr>next_img := Some nx, lastDm := lastDm d2\<rparr> \<and>
            (case next_img d of
               Some n0 \<Rightarrow> lastDm d2 = lastDm d
             | None \<Rightarrow> Pix (lastDm d2) = buffer d) \<and>
            (case first_fault 4 b of
               Some n \<Rightarrow> \<exists>b'. Draw d dst src sp b = Some (Some (ErrBus n), d2, b')
             | None \<Rightarrow> \<exists>b'. Draw d dst src sp b =
                   Some (None, d2\<lparr>buffer := Pix nx, lastDm := (lastDm d2)\<lparr>Pix := Pix nx\<rparr>\<rparr>,
                         b'))"
    if a: "\<not> Empty ?r" "full_frame_source d ?r src sp = None" "render d ?r src sp = Some d2"
      "next_img d2 = Some nx" "calculateDiff d2 = Some rc" "\<not> no_change rc"
    using render_rendered[OF assms(1) a(3,4)] render_state[OF assms(1) a(3,4)]
      render_ok[OF assms(1) a(3)] Draw_slow_commit[OF assms a, of b]
    by blast
  have T: "\<exists>d2 nx rc. render d ?r src sp = Some d2 \<and> next_img d2 = Some nx \<and>
                       calculateDiff d2 = Some rc"
    if "well_formed src"
    using assms(1) that by (rule render_returns)
  have F: "\<exists>b'. Draw d dst src sp b = Some (Some (ErrBus n), d, b')"
    if "full_frame_source d ?r src sp = Some pix" "first_fault 4 b = Some n"
    using assms(2) full_frame_source_nonempty[OF assms(1) that(1)] that by (rule Draw_fast_failure)
  show ?thesis using W D T F by blast
qed

section \<open>Concrete devices\<close>

lemma NewSPI_4x2:
  "NewSPI (Some \<lparr>W = 4, H = 2, Rotated = False, Sequential = False, SwapTopBottom = False,
                  RST = False\<rparr>) \<lparr>calls = [], faults = []\<rparr> =
   Some ((Some \<lparr>rst = False, rect = Rect_of 0 0 4 2, columnOffset = 238, buffer = [0, 0, 0, 0],
                next_img = None, lastDm = \<lparr>Pix = [], Stride = 0, Rect = ZR\<rparr>,
                minCol = 0, maxCol = 3, minRow = 0, maxRow = 1, halted = False\<rparr>, None),
         \<lparr>calls = [Connect, DC_Out False,
                   Tx [0xFD, 0x12, 0xAE, 0xB3, 0xF2, 0xCA, 1, 0xA2, 0, 0xA1, 0, 0xA0, 0x14, 0x11,
                       0xAB, 1, 0xB4, 0xA0, 0xFD, 0xC1, 0xFF, 0xC7, 0x0F, 0xB9, 0xB1, 0xE2, 0xD1,
                       0x82, 0x20, 0xBB, 0x1F, 0xB6, 8, 0xBE, 7, 0xA6, 0xA9],
                   DC_Out False, Tx [0x15, 119, 120, 0x75, 0, 1, 0x5C],
                   DC_Out True, Tx [0, 0, 0, 0], DC_Out False, Tx [0xAF]],
           faults = []\<rparr>)"
  by code_simp



text \<open>
  \<open>Write\<close> does not refresh \<open>lastDm\<close> or the double buffer. After a white frame
  drawn off the fast path and a frame of zeros written by \<open>Write\<close>, the baseline of the
  scan is still the white frame: drawing black, the committed frame, sends the whole frame,
  and drawing white sends nothing.
\<close>

lemma Draw_after_Write_stale_baseline:
  "Write \<lparr>rst = False, rect = Rect_of 0 0 4 2, columnOffset = 238,
          buffer = [0xFF, 0xFF, 0xFF, 0xFF],
          next_img = Some \<lparr>Pix = [0xFF, 0xFF, 0xFF, 0xFF], Stride = 2, Rect = Rect_of 0 0 4 2\<rparr>,
          lastDm = \<lparr>Pix = [0xFF, 0xFF, 0xFF, 0xFF], Stride = 2, Rect = Rect_of 0 0 4 2\<rparr>,
          minCol = 0, maxCol = 3, minRow = 0, maxRow = 1, halted = False\<rparr>
         [0, 0, 0, 0] \<lparr>calls = [], faults = []\<rparr> =
     ((4, None),
      \<lparr>rst = False, rect = Rect_of 0 0 4 2, columnOffset = 238, buffer = [0, 0, 0, 0],
       next_img = Some \<lparr>Pix = [0xFF, 0xFF, 0xFF, 0xFF], Stride = 2, Rect = Rect_of 0 0 4 2\<rparr>,
       lastDm = \<lparr>Pix = [0xFF, 0xFF, 0xFF, 0xFF], Stride = 2, Rect = Rect_of 0 0 4 2\<rparr>,
       minCol = 0, maxCol = 3, minRow = 0, maxRow = 1, halted = False\<rparr>,
      \<lparr>calls = [DC_Out False, Tx [0x15, 119, 120, 0x75, 0, 1, 0x5C], DC_Out True,
                Tx [0, 0, 0, 0]],
        faults = []\<rparr>) \<and>
   Draw \<lparr>rst = False, rect = Rect_of 0 0 4 2, columnOffset = 238, buffer = [0, 0, 0, 0],
         next_img = Some \<lparr>Pix = [0xFF, 0xFF, 0xFF, 0xFF], Stride = 2, Rect = Rect_of 0 0 4 2\<rparr>,
         lastDm = \<lparr>Pix = [0xFF, 0xFF, 0xFF, 0xFF], Stride = 2, Rect = Rect_of 0 0 4 2\<rparr>,
         minCol = 0, maxCol = 3, minRow = 0, maxRow = 1, halted = False\<rparr>
        (Rect_of 0 0 4 2) (Other_image (Rect_of 0 0 4 2) (\<lambda>x y. Gray4_color (Gray4 0)))
        (Pt 0 0) \<lparr>calls = [], faults = []\<rparr> =
     Some (None,
           \<lparr>rst = False, rect = Rect_of 0 0 4 2, columnOffset = 238, buffer = [0, 0, 0, 0],
            next_img = Some \<lparr>Pix = [0, 0, 0, 0], Stride = 2, Rect = Rect_of 0 0 4 2\<rparr>,
            lastDm = \<lparr>Pix = [0, 0, 0, 0], Stride = 2, Rect = Rect_of 0 0 4 2\<rparr>,
            minCol = 0, maxCol = 3, minRow = 0, maxRow = 1, halted = False\<rparr>,
           \<lparr>calls = [DC_Out False, Tx [0x15, 119, 120, 0x75, 0, 1, 0x5C], DC_Out True,
                     Tx [0, 0, 0, 0]],
             faults = []\<rparr>) \<and>
   Draw \<lparr>rst = False, rect = Rect_of 0 0 4 2, columnOffset = 238, buffer = [0, 0, 0, 0],
         next_img = Some \<lparr>Pix = [0xFF, 0xFF, 0xFF, 0xFF], Stride = 2, Rect = Rect_of 0 0 4 2\<rparr>,
         lastDm = \<lparr>Pix = [0xFF, 0xFF, 0xFF, 0xFF], Stride = 2, Rect = Rect_of 0 0 4 2\<rparr>,
         minCol = 0, maxCol = 3, minRow = 0, maxRow = 1, halted = False\<rparr>
        (Rect_of 0 0 4 2) (Other_image (Rect_of 0 0 4 2) (\<lambda>x y. Gray4_color (Gray4 15)))
        (Pt 0 0) \<lparr>calls = [], faults = []\<rparr> =
     Some (None,
           \<lparr>rst = False, rect = Rect_of 0 0 4 2, columnOffset = 238, buffer = [0, 0, 0, 0],
            next_img = Some \<lparr>Pix = [0xFF, 0xFF, 0xFF, 0xFF], Stride = 2, Rect = Rect_of 0 0 4 2\<rparr>,
            lastDm = \<lparr>Pix = [0xFF, 0xFF, 0xFF, 0xFF], Stride = 2, Rect = Rect_of 0 0 4 2\<rparr>,
            minCol = 0, maxCol = 3, minRow = 0, maxRow = 1, halted = False\<rparr>,
           \<lparr>calls = [], faults = []\<rparr>)"
  by code_simp

theorem commit_keeps_or_replaces_witness:
  "dev_ok \<lparr>rst = False, rect = Rect_of 0 0 4 2, columnOffset = 238, buffer = [0, 0, 0, 0],
           next_img = None, lastDm = \<lparr>Pix = [], Stride = 0, Rect = ZR\<rparr>,
           minCol = 0, maxCol = 3, minRow = 0, maxRow = 1, halted = False\<rparr> \<and>
   (\<exists>b'. Write \<lparr>rst = False, rect = Rect_of 0 0 4 2, columnOffset = 238, buffer = [0, 0, 0, 0],
                next_img = None, lastDm = \<lparr>Pix = [], Stride = 0, Rect = ZR\<rparr>,
                minCol = 0, maxCol = 3, minRow = 0, maxRow = 1, halted = False\<rparr>
               [1, 2, 3, 4] \<lparr>calls = [], faults = []\<rparr> =
          ((4, None),
           \<lparr>rst = False, rect = Rect_of 0 0 4 2, columnOffset = 238, buffer = [1, 2, 3, 4],
            next_img = None, lastDm = \<lparr>Pix = [], Stride = 0, Rect = ZR\<rparr>,
            minCol = 0, maxCol = 3, minRow = 0, maxRow = 1, halted = False\<rparr>, b')) \<and>
   (\<exists>b'. Write \<lparr>rst = False, rect = Rect_of 0 0 4 2, columnOffset = 238, buffer = [0, 0, 0, 0],
                next_img = None, lastDm = \<lparr>Pix = [], Stride = 0, Rect = ZR\<rparr>,
                minCol = 0, maxCol = 3, minRow = 0, maxRow = 1, halted = False\<rparr>
               [1, 2, 3, 4] \<lparr>calls = [], faults = [None, None, None, Some 3]\<rparr> =
          ((0, Some (ErrBus 3)),
           \<lparr>rst = False, rect = Rect_of 0 0 4 2, columnOffset = 238, buffer = [0, 0, 0, 0],
            next_img = None, lastDm = \<lparr>Pix = [], Stride = 0, Rect = ZR\<rparr>,
            minCol = 0, maxCol = 3, minRow = 0, maxRow = 1, halted = False\<rparr>, b')) \<and>
   rendered_from (Other_image (Rect_of 0 0 4 2) (\<lambda>x y. Gray4_color (Gray4 15)))
     (Rect_of 0 0 4 2) (Pt 0 0)
     \<lparr>Pix = [0, 0, 0, 0], Stride = 2, Rect = Rect_of 0 0 4 2\<rparr>
     \<lparr>Pix = [0xFF, 0xFF, 0xFF, 0xFF], Stride = 2, Rect = Rect_of 0 0 4 2\<rparr> \<and>
   (\<exists>b'. Draw \<lparr>rst = False, rect = Rect_of 0 0 4 2, columnOffset = 238, buffer = [0, 0, 0, 0],
               next_img = None, lastDm = \<lparr>Pix = [], Stride = 0, Rect = ZR\<rparr>,
               minCol = 0, maxCol = 3, minRow = 0, maxRow = 1, halted = False\<rparr>
              (Rect_of 0 0 4 2) (Other_image (Rect_of 0 0 4 2) (\<lambda>x y. Gray4_color (Gray4 15)))
              (Pt 0 0) \<lparr>calls = [], faults = [None, Some 7]\<rparr> =
          Some (Some (ErrBus 7),
                \<lparr>rst = False, rect = Rect_of 0 0 4 2, columnOffset = 238, buffer = [0, 0, 0, 0],
                 next_img = Some \<lparr>Pix = [0xFF, 0xFF, 0xFF, 0xFF], Stride = 2,
                                  Rect = Rect_of 0 0 4 2\<rparr>,
                 lastDm = \<lparr>Pix = [0, 0, 0, 0], Stride = 2, Rect = Rect_of 0 0 4 2\<rparr>,
                 minCol = 0, maxCol = 3, minRow = 0, maxRow = 1, halted = False\<rparr>, b')) \<and>
   (\<exists>b'. Draw \<lparr>rst = False, rect = Rect_of 0 0 4 2, columnOffset = 238, buffer = [0, 0, 0, 0],
               next_img = None, lastDm = \<lparr>Pix = [], Stride = 0, Rect = ZR\<rparr>,
               minCol = 0, maxCol = 3, minRow = 0, maxRow = 1, halted = False\<rparr>
              (Rect_of 0 0 4 2) (Other_image (Rect_of 0 0 4 2) (\<lambda>x y. Gray4_color (Gray4 15)))
              (Pt 0 0) \<lparr>calls = [], faults = []\<rparr> =
          Some (None,
                \<lparr>rst = False, rect = Rect_of 0 0 4 2, columnOffset = 238,
                 buffer = [0xFF, 0xFF, 0xFF, 0xFF],
                 next_img = Some \<lparr>Pix = [0xFF, 0xFF, 0xFF, 0xFF], Stride = 2,
                                  Rect = Rect_of 0 0 4 2\<rparr>,
                 lastDm = \<lparr>Pix = [0xFF, 0xFF, 0xFF, 0xFF], Stride = 2, Rect = Rect_of 0 0 4 2\<rparr>,
                 minCol = 0, maxCol = 3, minRow = 0, maxRow = 1, halted = False\<rparr>, b')) \<and>
   (\<exists>b'. Draw \<lparr>rst = False, rect = Rect_of 0 0 4 2, columnOffset = 238, buffer = [0, 0, 0, 0],
               next_img = None, lastDm = \<lparr>Pix = [], Stride = 0, Rect = ZR\<rparr>,
               minCol = 0, maxCol = 3, minRow = 0, maxRow = 1, halted = False\<rparr>
              (Rect_of 0 0 4 2)
              (Nibble_image \<lparr>Pix = [1, 2, 3, 4], Stride = 2, Rect = Rect_of 0 0 4 2\<rparr>)
              (Pt 0 0) \<lparr>calls = [], faults = [None, Some 7]\<rparr> =
          Some (Some (ErrBus 7),
                \<lparr>rst = False, rect = Rect_of 0 0 4 2, columnOffset = 238, buffer = [0, 0, 0, 0],
                 next_img = None, lastDm = \<lparr>Pix = [], Stride = 0, Rect = ZR\<rparr>,
                 minCol = 0, maxCol = 3, minRow = 0, maxRow = 1, halted = False\<rparr>, b'))"
proof -
  let ?d = "\<lparr>rst = False, rect = Rect_of 0 0 4 2, columnOffset = 238, buffer = [0, 0, 0, 0],
             next_img = None, lastDm = \<lparr>Pix = [], Stride = 0, Rect = ZR\<rparr>,
             minCol = 0, maxCol = 3, minRow = 0, maxRow = 1, halted = False\<rparr>"
  let ?nx = "\<lparr>Pix = [0xFF, 0xFF, 0xFF, 0xFF], Stride = 2, Rect = Rect_of 0 0 4 2\<rparr>"
  let ?dr = "\<lparr>rst = False, rect = Rect_of 0 0 4 2, columnOffset = 238, buffer = [0, 0, 0, 0],
              next_img = Some ?nx,
              lastDm = \<lparr>Pix = [0, 0, 0, 0], Stride = 2, Rect = Rect_of 0 0 4 2\<rparr>,
              minCol = 0, maxCol = 3, minRow = 0, maxRow = 1, halted = False\<rparr>"
  let ?r = "Rect_of 0 0 4 2" and ?sp = "Pt 0 0"
  let ?src = "Other_image (Rect_of 0 0 4 2) (\<lambda>x y. Gray4_color (Gray4 15))"
  let ?nib = "Nibble_image \<lparr>Pix = [1, 2, 3, 4], Stride = 2, Rect = Rect_of 0 0 4 2\<rparr>"
  let ?b = "\<lparr>calls = [], faults = []\<rparr>"
  let ?bf = "\<lparr>calls = [], faults = [None, Some 7]\<rparr>"
  let ?bw = "\<lparr>calls = [], faults = [None, None, None, Some 3]\<rparr>"
  have ok: "dev_ok ?d" by code_simp
  have nh: "\<not> halted ?d" by simp
  have f0: "first_fault 4 ?b = None" by (simp add: first_fault_def)
  have f7: "first_fault 4 ?bf = Some 7" by (simp add: first_fault_def)
  have f3: "first_fault 4 ?bw = Some 3" by (simp add: first_fault_def)
  have ne: "\<not> Empty (Intersect ?r (rect ?d))" by code_simp
  have ff: "full_frame_source ?d (Intersect ?r (rect ?d)) ?src ?sp = None" by simp
  have rd: "render ?d (Intersect ?r (rect ?d)) ?src ?sp = Some ?dr" by code_simp
  have cd: "calculateDiff ?dr = Some (0, 3, 0, 1)" by code_simp
  have ch: "\<not> no_change (0, 3, 0, 1)" by (simp add: no_change_def)
  have ir: "Intersect ?r ?r = ?r" by code_simp
  have nw: "NewHorizontalNibble ?r =
              Some \<lparr>Pix = [0, 0, 0, 0], Stride = 2, Rect = Rect_of 0 0 4 2\<rparr>"
    by code_simp
  have fn: "full_frame_source ?d (Intersect ?r (rect ?d)) ?nib ?sp = Some [1, 2, 3, 4]"
    by code_simp
  have w0: "\<exists>b'. Write ?d [1, 2, 3, 4] ?b = ((4, None), ?d\<lparr>buffer := [1, 2, 3, 4]\<rparr>, b')"
    using commit_keeps_or_replaces[OF ok nh, where pixels = "[1, 2, 3, 4]" and b = ?b,
        THEN conjunct1] by (simp add: f0)
  have w3: "\<exists>b'. Write ?d [1, 2, 3, 4] ?bw = ((0, Some (ErrBus 3)), ?d, b')"
    using commit_keeps_or_replaces[OF ok nh, where pixels = "[1, 2, 3, 4]" and b = ?bw,
        THEN conjunct1] by (simp add: f3)
  note t = commit_keeps_or_replaces[OF ok nh, where dst = ?r and src = ?src and sp = ?sp
      and ?d2.0 = ?dr and nx = ?nx and rc = "(0, 3, 0, 1)", THEN conjunct2, THEN conjunct1,
      rule_format, OF conjI[OF ne conjI[OF ff conjI[OF rd conjI[OF _ conjI[OF cd ch]]]]]]
  have rf: "rendered_from ?src ?r ?sp \<lparr>Pix = [0, 0, 0, 0], Stride = 2, Rect = Rect_of 0 0 4 2\<rparr> ?nx"
    using t[where b = ?b] by (simp add: ir nw)
  have d7: "\<exists>b'. Draw ?d ?r ?src ?sp ?bf = Some (Some (ErrBus 7), ?dr, b')"
    using t[where b = ?bf] by (simp add: f7)
  have d0: "\<exists>b'. Draw ?d ?r ?src ?sp ?b =
              Some (None, ?dr\<lparr>buffer := Pix ?nx, lastDm := (lastDm ?dr)\<lparr>Pix := Pix ?nx\<rparr>\<rparr>, b')"
    using t[where b = ?b] by (simp add: f0)
  have d9: "\<exists>b'. Draw ?d ?r ?nib ?sp ?bf = Some (Some (ErrBus 7), ?d, b')"
    using commit_keeps_or_replaces[OF ok nh, where dst = ?r and src = ?nib and sp = ?sp
        and pix = "[1, 2, 3, 4]" and b = ?bf and n = 7,
        THEN conjunct2, THEN conjunct2, THEN conjunct2] fn f7 by blast
  show ?thesis using ok w0 w3 rf d7 d0 d9 by simp
qed

text \<open>
  Claim C3 as stated fails: after a \<open>Draw\<close> whose transport fails the device is not as
  it was, the double buffer has been allocated and holds the rendered frame.
\<close>

theorem Draw_failure_keeps_rendering:
  "Draw \<lparr>rst = False, rect = Rect_of 0 0 4 2, columnOffset = 238, buffer = [0, 0, 0, 0],
         next_img = None, lastDm = \<lparr>Pix = [], Stride = 0, Rect = ZR\<rparr>,
         minCol = 0, maxCol = 3, minRow = 0, maxRow = 1, halted = False\<rparr>
        (Rect_of 0 0 4 2) (Other_image (Rect_of 0 0 4 2) (\<lambda>x y. Gray4_color (Gray4 15)))
        (Pt 0 0) \<lparr>calls = [], faults = [Some 7]\<rparr> =
     Some (Some (ErrBus 7),
           \<lparr>rst = False, rect = Rect_of 0 0 4 2, columnOffset = 238, buffer = [0, 0, 0, 0],
            next_img = Some \<lparr>Pix = [0xFF, 0xFF, 0xFF, 0xFF], Stride = 2, Rect = Rect_of 0 0 4 2\<rparr>,
            lastDm = \<lparr>Pix = [0, 0, 0, 0], Stride = 2, Rect = Rect_of 0 0 4 2\<rparr>,
            minCol = 0, maxCol = 3, minRow = 0, maxRow = 1, halted = False\<rparr>,
           \<lparr>calls = [DC_Out False], faults = []\<rparr>) \<and>
   \<lparr>rst = False, rect = Rect_of 0 0 4 2, columnOffset = 238, buffer = [0, 0, 0, 0],
    next_img = Some \<lparr>Pix = [0xFF, 0xFF, 0xFF, 0xFF], Stride = 2, Rect = Rect_of 0 0 4 2\<rparr>,
    lastDm = \<lparr>Pix = [0, 0, 0, 0], Stride = 2, Rect = Rect_of 0 0 4 2\<rparr>,
    minCol = 0, maxCol = 3, minRow = 0, maxRow = 1, halted = False\<rparr> \<noteq>
   \<lparr>rst = False, rect = Rect_of 0 0 4 2, columnOffset = 238, buffer = [0, 0, 0, 0],
    next_img = None, lastDm = \<lparr>Pix = [], Stride = 0, Rect = ZR\<rparr>,
    minCol = 0, maxCol = 3, minRow = 0, maxRow = 1, halted = False\<rparr>"
  by code_simp

text \<open>
  The fast path of \<open>Draw\<close> sends the frame and returns nil without copying it into
  \<open>buffer\<close>, which \<open>Write\<close> does after the same \<open>writeFullFrame\<close>.
\<close>

lemma Draw_full_frame_not_recorded:
  "Draw \<lparr>rst = False, rect = Rect_of 0 0 4 2, columnOffset = 238, buffer = [0, 0, 0, 0],
         next_img = None, lastDm = \<lparr>Pix = [], Stride = 0, Rect = ZR\<rparr>,
         minCol = 0, maxCol = 3, minRow = 0, maxRow = 1, halted = False\<rparr>
        (Rect_of 0 0 4 2)
        (Nibble_image \<lparr>Pix = [0x12, 0x34, 0x56, 0x78], Stride = 2, Rect = Rect_of 0 0 4 2\<rparr>)
        (Pt 0 0) \<lparr>calls = [], faults = []\<rparr> =
     Some (None,
           \<lparr>rst = False, rect = Rect_of 0 0 4 2, columnOffset = 238, buffer = [0, 0, 0, 0],
            next_img = None, lastDm = \<lparr>Pix = [], Stride = 0, Rect = ZR\<rparr>,
            minCol = 0, maxCol = 3, minRow = 0, maxRow = 1, halted = False\<rparr>,
           \<lparr>calls = [DC_Out False, Tx [0x15, 119, 120, 0x75, 0, 1, 0x5C],
                     DC_Out True, Tx [0x12, 0x34, 0x56, 0x78]],
             faults = []\<rparr>)"
  by code_simp

end
